theory Spec2Isabelle
  imports Main
begin

section \<open>The document-processing tool\<close>

text \<open>
  The three text operations of \<^verbatim>\<open>src/tools/document-processing-tool.js\<close>, namely
  \<^verbatim>\<open>chunk_document\<close>, \<^verbatim>\<open>extract_code\<close> and \<^verbatim>\<open>analyze_document_structure\<close>, are
  embedded as HOL functions. A JavaScript string is modelled as a \<open>string\<close>, so a text
  is a sequence of code units below 256. The regular expressions of the handlers are
  kept as syntax trees and run by a backtracking matcher that follows the pattern
  semantics of ECMAScript. The text splitter that \<^verbatim>\<open>chunk_document\<close> calls belongs to
  a library whose code is not part of the sources; it is a parameter of the model.
\<close>

subsection \<open>Characters\<close>

definition line_terminator :: "char \<Rightarrow> bool" where
  \<comment> \<open>LineTerminator: LF and CR (U+2028 and U+2029 lie outside the modelled range).\<close>
  "line_terminator c = (c = CHR 0x0A \<or> c = CHR 0x0D)"

definition white_space :: "char \<Rightarrow> bool" where
  \<comment> \<open>The class \<open>\s\<close>, also what \<open>trim\<close> strips: TAB, LF, VT, FF, CR, SP, NBSP.\<close>
  "white_space c =
     (c = CHR 0x09 \<or> c = CHR 0x0A \<or> c = CHR 0x0B \<or> c = CHR 0x0C \<or> c = CHR 0x0D
      \<or> c = CHR 0x20 \<or> c = CHR 0xA0)"

definition any_char :: "char \<Rightarrow> bool" where
  \<comment> \<open>\<open>[\s\S]\<close>\<close>
  "any_char c = True"

definition dot :: "char \<Rightarrow> bool" where
  \<comment> \<open>\<open>.\<close> without the s flag\<close>
  "dot c = (\<not> line_terminator c)"

definition not_newline :: "char \<Rightarrow> bool" where
  \<comment> \<open>\<open>[^\n]\<close>\<close>
  "not_newline c = (c \<noteq> CHR 0x0A)"

definition blank :: "char \<Rightarrow> bool" where
  \<comment> \<open>\<open>[ \t]\<close>\<close>
  "blank c = (c = CHR 0x20 \<or> c = CHR 0x09)"

definition in_range :: "char \<Rightarrow> char \<Rightarrow> char \<Rightarrow> bool" where
  \<comment> \<open>a class range \<open>lo-hi\<close>, by code unit\<close>
  "in_range lo hi c = ((of_char lo :: nat) \<le> of_char c \<and> (of_char c :: nat) \<le> of_char hi)"

definition digit :: "char \<Rightarrow> bool" where
  \<comment> \<open>\<open>\d\<close>\<close>
  "digit c = in_range CHR ''0'' CHR ''9'' c"

definition alnum :: "char \<Rightarrow> bool" where
  \<comment> \<open>\<open>[a-zA-Z0-9]\<close>\<close>
  "alnum c =
     (in_range CHR ''a'' CHR ''z'' c \<or> in_range CHR ''A'' CHR ''Z'' c
      \<or> in_range CHR ''0'' CHR ''9'' c)"

definition bullet :: "char \<Rightarrow> bool" where
  \<comment> \<open>\<open>[-*+]\<close>\<close>
  "bullet c = (c = CHR ''-'' \<or> c = CHR ''*'' \<or> c = CHR ''+'')"

definition lit :: "char \<Rightarrow> char \<Rightarrow> bool" where
  "lit a c = (c = a)"

definition lower_char :: "char \<Rightarrow> char" where
  \<comment> \<open>\<^verbatim>\<open>toLowerCase\<close> on one code unit: A-Z, and the Latin-1 capitals other than U+00D7.\<close>
  "lower_char c =
     (let n = (of_char c :: nat)
      in if (65 \<le> n \<and> n \<le> 90) \<or> (192 \<le> n \<and> n \<le> 222 \<and> n \<noteq> 215)
         then char_of (n + 32) else c)"

definition toLowerCase :: "string \<Rightarrow> string" where
  "toLowerCase s = map lower_char s"

definition trim :: "string \<Rightarrow> string" where
  \<comment> \<open>\<^verbatim>\<open>String.prototype.trim\<close>: white space and line terminators go, at both ends.\<close>
  "trim s = rev (dropWhile white_space (rev (dropWhile white_space s)))"

subsection \<open>Patterns and the backtracking matcher\<close>

text \<open>
  A matcher state is a position in the text: the text before it (last character first),
  the text after it, and the captures made so far (the latest first). The end index of
  the ECMAScript state is \<open>length (before s)\<close>.
\<close>

datatype mstate = MState (before: string) (rest: string) (caps: "(nat \<times> string) list")

type_synonym cont = "mstate \<Rightarrow> mstate option"

text \<open>
  The patterns the tool uses: a character class, the assertions \<^verbatim>\<open>^\<close> and \<^verbatim>\<open>$\<close>
  (every pattern that has them carries the \<^verbatim>\<open>m\<close> flag), concatenation, alternation,
  a quantifier \<^verbatim>\<open>{min,max}\<close> (\<open>None\<close> for no upper bound; the flag says whether it is
  greedy) and a capture group with its number. A non-capturing group needs no
  constructor.
\<close>

datatype regex =
    Cls "char \<Rightarrow> bool"
  | Bol
  | Eol
  | Cat regex regex
  | Alt regex regex
  | Quant nat "nat option" bool regex
  | Grp nat regex

definition at_bol :: "mstate \<Rightarrow> bool" where
  \<comment> \<open>\<open>^\<close> under the m flag\<close>
  "at_bol s = (case before s of [] \<Rightarrow> True | c # _ \<Rightarrow> line_terminator c)"

definition at_eol :: "mstate \<Rightarrow> bool" where
  \<comment> \<open>\<open>$\<close> under the m flag\<close>
  "at_eol s = (case rest s of [] \<Rightarrow> True | c # _ \<Rightarrow> line_terminator c)"

text \<open>
  RepeatMatcher. \<open>rep_min\<close> runs the iterations a quantifier requires. \<open>rep_more\<close> runs
  the optional ones: an iteration that leaves the end index where it was is a failure,
  a greedy quantifier tries one more iteration before the continuation and a lazy one
  the continuation first. The counter bounds the optional iterations; for an unbounded
  quantifier it starts at the length of the remaining text, which no run of iterations
  that each consume a character can exceed (\<open>rep_more_bound\<close> below). No pattern of
  the tool has a capture group under a quantifier that iterates more than once, so the
  reset of the captures at the start of an iteration is not modelled.
\<close>

primrec rep_min :: "nat \<Rightarrow> (cont \<Rightarrow> cont) \<Rightarrow> cont \<Rightarrow> cont" where
  "rep_min 0 body k s = k s"
| "rep_min (Suc n) body k s = body (rep_min n body k) s"

primrec rep_more :: "bool \<Rightarrow> nat \<Rightarrow> (cont \<Rightarrow> cont) \<Rightarrow> cont \<Rightarrow> cont" where
  "rep_more greedy 0 body k s = k s"
| "rep_more greedy (Suc n) body k s =
     (if greedy
      then (case body (\<lambda>y. if length (before y) = length (before s) then None
                            else rep_more greedy n body k y) s of
              Some z \<Rightarrow> Some z
            | None \<Rightarrow> k s)
      else (case k s of
              Some z \<Rightarrow> Some z
            | None \<Rightarrow> body (\<lambda>y. if length (before y) = length (before s) then None
                                 else rep_more greedy n body k y) s))"

text \<open>
  The matcher of a pattern takes the continuation that matches the rest of the
  pattern and the state to start from. It returns the final state of the first
  successful way through, or \<open>None\<close>.
\<close>

primrec matcher :: "regex \<Rightarrow> cont \<Rightarrow> cont" where
  "matcher (Cls p) k s =
     (case rest s of
        [] \<Rightarrow> None
      | c # cs \<Rightarrow> if p c then k (MState (c # before s) cs (caps s)) else None)"
| "matcher Bol k s = (if at_bol s then k s else None)"
| "matcher Eol k s = (if at_eol s then k s else None)"
| "matcher (Cat a b) k s = matcher a (matcher b k) s"
| "matcher (Alt a b) k s =
     (case matcher a k s of Some z \<Rightarrow> Some z | None \<Rightarrow> matcher b k s)"
| "matcher (Quant mn mx greedy r) k s =
     rep_min mn (matcher r)
       (\<lambda>y. rep_more greedy (case mx of None \<Rightarrow> length (rest y) | Some b \<Rightarrow> b - mn)
               (matcher r) k y) s"
| "matcher (Grp i r) k s =
     matcher r (\<lambda>y. k (MState (before y) (rest y)
        ((i, rev (take (length (before y) - length (before s)) (before y))) # caps y))) s"

text \<open>
  A match: its index, the matched text \<^verbatim>\<open>match[0]\<close>, the captures, and the text on
  either side of its end (for a global pattern the end is the new \<^verbatim>\<open>lastIndex\<close>).
\<close>

datatype rmatch =
  RMatch (index: nat) (matched: string) (groups: "(nat \<times> string) list")
    (m_before: string) (m_rest: string)

definition group :: "rmatch \<Rightarrow> nat \<Rightarrow> string option" where
  \<comment> \<open>\<open>match[i]\<close>; \<open>None\<close> is \<open>undefined\<close>\<close>
  "group mt i = map_of (groups mt) i"

definition match_at :: "regex \<Rightarrow> string \<Rightarrow> string \<Rightarrow> rmatch option" where
  \<comment> \<open>the pattern run at one position\<close>
  "match_at re bef rst =
     (case matcher re Some (MState bef rst []) of
        None \<Rightarrow> None
      | Some y \<Rightarrow>
          Some (RMatch (length bef) (rev (take (length (before y) - length bef) (before y)))
                  (caps y) (before y) (rest y)))"

text \<open>
  RegExpBuiltinExec of a global, non-sticky pattern at \<^verbatim>\<open>lastIndex = length bef\<close>:
  the first position from there on at which the pattern matches.
\<close>

primrec search :: "regex \<Rightarrow> string \<Rightarrow> string \<Rightarrow> rmatch option" where
  "search re bef [] = match_at re bef []"
| "search re bef (c # cs) =
     (case match_at re bef (c # cs) of
        Some mt \<Rightarrow> Some mt
      | None \<Rightarrow> search re (c # bef) cs)"

subsection \<open>What a pattern can match\<close>

text \<open>
  \<open>ends r s y\<close>: the pattern \<open>r\<close>, started in state \<open>s\<close>, can stop in state \<open>y\<close>. The
  matcher returns what its continuation makes of one such state, and fails only when
  the continuation rejects them all. \<open>minlen r\<close> is a lower bound on what \<open>r\<close>
  consumes.
\<close>

primrec pow_rel :: "nat \<Rightarrow> (mstate \<Rightarrow> mstate \<Rightarrow> bool) \<Rightarrow> mstate \<Rightarrow> mstate \<Rightarrow> bool" where
  "pow_rel 0 R s y = (y = s)"
| "pow_rel (Suc n) R s y = (\<exists>x. R s x \<and> pow_rel n R x y)"

primrec more_rel :: "nat \<Rightarrow> (mstate \<Rightarrow> mstate \<Rightarrow> bool) \<Rightarrow> mstate \<Rightarrow> mstate \<Rightarrow> bool" where
  "more_rel 0 R s y = (y = s)"
| "more_rel (Suc n) R s y =
     (y = s \<or> (\<exists>x. R s x \<and> length (before x) \<noteq> length (before s) \<and> more_rel n R x y))"

primrec ends :: "regex \<Rightarrow> mstate \<Rightarrow> mstate \<Rightarrow> bool" where
  "ends (Cls p) s y =
     (\<exists>c cs. rest s = c # cs \<and> p c \<and> y = MState (c # before s) cs (caps s))"
| "ends Bol s y = (at_bol s \<and> y = s)"
| "ends Eol s y = (at_eol s \<and> y = s)"
| "ends (Cat a b) s y = (\<exists>x. ends a s x \<and> ends b x y)"
| "ends (Alt a b) s y = (ends a s y \<or> ends b s y)"
| "ends (Quant mn mx greedy r) s y =
     (\<exists>x. pow_rel mn (ends r) s x
        \<and> more_rel (case mx of None \<Rightarrow> length (rest x) | Some b \<Rightarrow> b - mn) (ends r) x y)"
| "ends (Grp i r) s y =
     (\<exists>x. ends r s x \<and> y = MState (before x) (rest x)
        ((i, rev (take (length (before x) - length (before s)) (before x))) # caps x))"

primrec minlen :: "regex \<Rightarrow> nat" where
  "minlen (Cls p) = 1"
| "minlen Bol = 0"
| "minlen Eol = 0"
| "minlen (Cat a b) = minlen a + minlen b"
| "minlen (Alt a b) = min (minlen a) (minlen b)"
| "minlen (Quant mn mx greedy r) = mn * minlen r"
| "minlen (Grp i r) = minlen r"

definition reach :: "nat \<Rightarrow> mstate \<Rightarrow> mstate \<Rightarrow> bool" where
  \<comment> \<open>\<open>y\<close> lies at least \<open>n\<close> characters after \<open>s\<close> in the same text\<close>
  "reach n s y =
     (\<exists>u. n \<le> length u \<and> before y = rev u @ before s \<and> rest s = u @ rest y)"

lemma rep_min_sound:
  assumes body: "\<And>k s z. body k s = Some z \<Longrightarrow> \<exists>y. R s y \<and> k y = Some z"
  shows "rep_min n body k s = Some z \<Longrightarrow> \<exists>y. pow_rel n R s y \<and> k y = Some z"
proof (induction n arbitrary: s)
  case 0
  then show ?case by simp
next
  case (Suc n)
  from Suc.prems have "body (rep_min n body k) s = Some z" by simp
  then obtain x where x: "R s x" "rep_min n body k x = Some z" using body by blast
  from Suc.IH [OF x(2)] obtain y where "pow_rel n R x y" "k y = Some z" by blast
  with x(1) show ?case by auto
qed

lemma rep_more_sound:
  assumes body: "\<And>k s z. body k s = Some z \<Longrightarrow> \<exists>y. R s y \<and> k y = Some z"
  shows "rep_more g n body k s = Some z \<Longrightarrow> \<exists>y. more_rel n R s y \<and> k y = Some z"
proof (induction n arbitrary: s)
  case 0
  then show ?case by simp
next
  case (Suc n)
  let ?d = "\<lambda>y. if length (before y) = length (before s) then None else rep_more g n body k y"
  from Suc.prems have "k s = Some z \<or> body ?d s = Some z"
    by (auto split: if_splits option.splits)
  then show ?case
  proof
    assume "k s = Some z"
    then show ?thesis by auto
  next
    assume "body ?d s = Some z"
    then obtain x where x: "R s x" "?d x = Some z" using body by blast
    then have p: "length (before x) \<noteq> length (before s)" and r: "rep_more g n body k x = Some z"
      by (auto split: if_splits)
    from Suc.IH [OF r] obtain y where "more_rel n R x y" "k y = Some z" by blast
    with x(1) p show ?thesis by auto
  qed
qed

lemma matcher_sound:
  "matcher r k s = Some z \<Longrightarrow> \<exists>y. ends r s y \<and> k y = Some z"
proof (induction r arbitrary: k s z)
  case (Cls p)
  then show ?case by (auto split: list.splits if_splits)
next
  case Bol
  then show ?case by (auto split: if_splits)
next
  case Eol
  then show ?case by (auto split: if_splits)
next
  case (Cat a b)
  from Cat.prems have "matcher a (matcher b k) s = Some z" by simp
  from Cat.IH(1) [OF this] obtain x where x: "ends a s x" "matcher b k x = Some z" by blast
  from Cat.IH(2) [OF x(2)] obtain y where "ends b x y" "k y = Some z" by blast
  with x(1) show ?case by auto
next
  case (Alt a b)
  from Alt.prems have "matcher a k s = Some z \<or> matcher b k s = Some z"
    by (auto split: option.splits)
  then show ?case using Alt.IH by fastforce
next
  case (Quant mn mx g r)
  let ?k = "\<lambda>y. rep_more g (case mx of None \<Rightarrow> length (rest y) | Some b \<Rightarrow> b - mn) (matcher r) k y"
  from Quant.prems have "rep_min mn (matcher r) ?k s = Some z" by simp
  from rep_min_sound [where R = "ends r", OF Quant.IH this]
  obtain x where x: "pow_rel mn (ends r) s x" "?k x = Some z" by blast
  from rep_more_sound [where R = "ends r", OF Quant.IH x(2)]
  obtain y where "more_rel (case mx of None \<Rightarrow> length (rest x) | Some b \<Rightarrow> b - mn) (ends r) x y"
    "k y = Some z" by blast
  with x(1) show ?case by auto
next
  case (Grp i r)
  from Grp.prems Grp.IH show ?case by fastforce
qed

lemma rep_min_complete:
  assumes body: "\<And>k s y. R s y \<Longrightarrow> k y \<noteq> None \<Longrightarrow> body k s \<noteq> None"
  shows "pow_rel n R s y \<Longrightarrow> k y \<noteq> None \<Longrightarrow> rep_min n body k s \<noteq> None"
proof (induction n arbitrary: s)
  case 0
  then show ?case by simp
next
  case (Suc n)
  from Suc.prems obtain x where x: "R s x" "pow_rel n R x y" by auto
  from Suc.IH [OF x(2) Suc.prems(2)] have "rep_min n body k x \<noteq> None" .
  with body [of s x "rep_min n body k"] x(1) show ?case by simp
qed

lemma rep_more_complete:
  assumes body: "\<And>k s y. R s y \<Longrightarrow> k y \<noteq> None \<Longrightarrow> body k s \<noteq> None"
  shows "more_rel n R s y \<Longrightarrow> k y \<noteq> None \<Longrightarrow> rep_more g n body k s \<noteq> None"
proof (induction n arbitrary: s)
  case 0
  then show ?case by simp
next
  case (Suc n)
  let ?d = "\<lambda>y. if length (before y) = length (before s) then None else rep_more g n body k y"
  from Suc.prems(1) have "y = s \<or> (\<exists>x. R s x \<and> length (before x) \<noteq> length (before s) \<and> more_rel n R x y)"
    by simp
  then show ?case
  proof
    assume "y = s"
    with Suc.prems(2) show ?thesis by (auto split: option.splits)
  next
    assume "\<exists>x. R s x \<and> length (before x) \<noteq> length (before s) \<and> more_rel n R x y"
    then obtain x where x: "R s x" "length (before x) \<noteq> length (before s)" "more_rel n R x y"
      by blast
    from Suc.IH [OF x(3) Suc.prems(2)] x(2) have "?d x \<noteq> None" by simp
    with body [of s x ?d] x(1) have "body ?d s \<noteq> None" by blast
    then show ?thesis by (auto split: option.splits)
  qed
qed

lemma matcher_complete:
  "ends r s y \<Longrightarrow> k y \<noteq> None \<Longrightarrow> matcher r k s \<noteq> None"
proof (induction r arbitrary: k s y)
  case (Cls p)
  then show ?case by auto
next
  case Bol
  then show ?case by auto
next
  case Eol
  then show ?case by auto
next
  case (Cat a b)
  from Cat.prems obtain x where x: "ends a s x" "ends b x y" by auto
  have "matcher b k x \<noteq> None" using Cat.IH(2) x(2) Cat.prems(2) by blast
  then have "matcher a (matcher b k) s \<noteq> None" using Cat.IH(1) x(1) by blast
  then show ?case by simp
next
  case (Alt a b)
  from Alt.prems(1) have "ends a s y \<or> ends b s y" by simp
  then have "matcher a k s \<noteq> None \<or> matcher b k s \<noteq> None"
    using Alt.IH Alt.prems(2) by blast
  then show ?case by (cases "matcher a k s") auto
next
  case (Quant mn mx g r)
  let ?k = "\<lambda>y. rep_more g (case mx of None \<Rightarrow> length (rest y) | Some b \<Rightarrow> b - mn) (matcher r) k y"
  from Quant.prems(1) obtain x where x: "pow_rel mn (ends r) s x"
    "more_rel (case mx of None \<Rightarrow> length (rest x) | Some b \<Rightarrow> b - mn) (ends r) x y" by auto
  have "rep_more g (case mx of None \<Rightarrow> length (rest x) | Some b \<Rightarrow> b - mn) (matcher r) k x \<noteq> None"
    by (rule rep_more_complete [where R = "ends r" and y = y]) (fact Quant.IH x(2) Quant.prems(2))+
  then have "?k x \<noteq> None" .
  have "rep_min mn (matcher r) ?k s \<noteq> None"
    by (rule rep_min_complete [where R = "ends r" and y = x]) (fact Quant.IH x(1) \<open>?k x \<noteq> None\<close>)+
  then show ?case by simp
next
  case (Grp i r)
  from Grp.prems obtain x where x: "ends r s x"
    "y = MState (before x) (rest x) ((i, rev (take (length (before x) - length (before s)) (before x))) # caps x)"
    by auto
  from Grp.IH [OF x(1), of "\<lambda>y. k (MState (before y) (rest y)
        ((i, rev (take (length (before y) - length (before s)) (before y))) # caps y))"] x(2) Grp.prems(2)
  show ?case by simp
qed

lemma reach_refl: "reach 0 s s"
  by (simp add: reach_def)

lemma reach_trans: "reach m s x \<Longrightarrow> reach n x y \<Longrightarrow> reach (m + n) s y"
  unfolding reach_def
proof -
  assume "\<exists>u. m \<le> length u \<and> before x = rev u @ before s \<and> rest s = u @ rest x"
    and "\<exists>u. n \<le> length u \<and> before y = rev u @ before x \<and> rest x = u @ rest y"
  then obtain u v where u: "m \<le> length u" "before x = rev u @ before s" "rest s = u @ rest x"
    and v: "n \<le> length v" "before y = rev v @ before x" "rest x = v @ rest y" by blast
  then have "m + n \<le> length (u @ v) \<and> before y = rev (u @ v) @ before s \<and> rest s = (u @ v) @ rest y"
    by simp
  then show "\<exists>u. m + n \<le> length u \<and> before y = rev u @ before s \<and> rest s = u @ rest y"
    by blast
qed

lemma reach_weaken: "reach n s y \<Longrightarrow> m \<le> n \<Longrightarrow> reach m s y"
  by (auto simp: reach_def)

lemma pow_rel_reach:
  assumes R: "\<And>s y. R s y \<Longrightarrow> reach m s y"
  shows "pow_rel n R s y \<Longrightarrow> reach (n * m) s y"
proof (induction n arbitrary: s)
  case 0
  then show ?case by (simp add: reach_refl)
next
  case (Suc n)
  then obtain x where "R s x" "pow_rel n R x y" by auto
  then have "reach m s x" "reach (n * m) x y" using R Suc.IH by auto
  from reach_trans [OF this] show ?case by (simp add: add.commute)
qed

lemma more_rel_reach:
  assumes R: "\<And>s y. R s y \<Longrightarrow> reach m s y"
  shows "more_rel n R s y \<Longrightarrow> reach 0 s y"
proof (induction n arbitrary: s)
  case 0
  then show ?case by (simp add: reach_refl)
next
  case (Suc n)
  then have "y = s \<or> (\<exists>x. R s x \<and> more_rel n R x y)" by auto
  then show ?case
  proof
    assume "y = s" then show ?thesis by (simp add: reach_refl)
  next
    assume "\<exists>x. R s x \<and> more_rel n R x y"
    then obtain x where "R s x" "more_rel n R x y" by blast
    then have "reach 0 s x" "reach 0 x y" using R [THEN reach_weaken] Suc.IH by auto
    from reach_trans [OF this] show ?thesis by simp
  qed
qed

lemma ends_reach: "ends r s y \<Longrightarrow> reach (minlen r) s y"
proof (induction r arbitrary: s y)
  case (Cls p)
  then show ?case by (auto simp: reach_def)
next
  case Bol
  then show ?case by (simp add: reach_refl)
next
  case Eol
  then show ?case by (simp add: reach_refl)
next
  case (Cat a b)
  then obtain x where "ends a s x" "ends b x y" by auto
  then have "reach (minlen a) s x" "reach (minlen b) x y" using Cat.IH by auto
  from reach_trans [OF this] show ?case by simp
next
  case (Alt a b)
  then have "reach (minlen a) s y \<or> reach (minlen b) s y" by auto
  then show ?case by (auto elim: reach_weaken)
next
  case (Quant mn mx g r)
  then obtain x where x: "pow_rel mn (ends r) s x"
    "more_rel (case mx of None \<Rightarrow> length (rest x) | Some b \<Rightarrow> b - mn) (ends r) x y" by auto
  from pow_rel_reach [where R = "ends r", OF Quant.IH x(1)] have a: "reach (mn * minlen r) s x" .
  from more_rel_reach [where R = "ends r", OF Quant.IH x(2)] have b: "reach 0 x y" .
  from reach_trans [OF a b] show ?case by simp
next
  case (Grp i r)
  then obtain x where "ends r s x" "before y = before x" "rest y = rest x" by auto
  with Grp.IH [of s x] show ?case by (simp add: reach_def)
qed

lemma matcher_reach: "matcher re Some s = Some y \<Longrightarrow> reach (minlen re) s y"
proof -
  assume "matcher re Some s = Some y"
  from matcher_sound [OF this] have "ends re s y" by auto
  then show ?thesis by (rule ends_reach)
qed

lemma match_at_shape:
  assumes "match_at re bef rst = Some mt"
  shows "\<exists>u. minlen re \<le> length u \<and> matched mt = u \<and> m_before mt = rev u @ bef
           \<and> rst = u @ m_rest mt \<and> index mt = length bef"
proof -
  from assms obtain y where y: "matcher re Some (MState bef rst []) = Some y"
    and mt: "mt = RMatch (length bef) (rev (take (length (before y) - length bef) (before y)))
                  (caps y) (before y) (rest y)"
    by (auto simp: match_at_def split: option.splits)
  from matcher_reach [OF y] obtain u where u: "minlen re \<le> length u"
    "before y = rev u @ bef" "rst = u @ rest y"
    by (auto simp: reach_def)
  with mt show ?thesis by simp
qed

lemma match_at_sound:
  assumes "match_at re b r = Some mt"
  shows "\<exists>y. ends re (MState b r []) y \<and> groups mt = caps y \<and> m_before mt = before y
           \<and> m_rest mt = rest y"
proof -
  from assms obtain y where y: "matcher re Some (MState b r []) = Some y"
    and mt: "mt = RMatch (length b) (rev (take (length (before y) - length b) (before y)))
                  (caps y) (before y) (rest y)"
    by (auto simp: match_at_def split: option.splits)
  from matcher_sound [OF y] have "ends re (MState b r []) y" by auto
  with mt have "ends re (MState b r []) y \<and> groups mt = caps y \<and> m_before mt = before y
           \<and> m_rest mt = rest y" by simp
  then show ?thesis by blast
qed

lemma match_at_complete:
  assumes "ends re (MState b r []) y"
  shows "match_at re b r \<noteq> None"
proof -
  from matcher_complete [OF assms, of Some] have "matcher re Some (MState b r []) \<noteq> None"
    by simp
  then show ?thesis by (auto simp: match_at_def)
qed

lemma search_shape:
  "search re bef rst = Some mt \<Longrightarrow>
     \<exists>pre u. minlen re \<le> length u \<and> matched mt = u \<and> m_before mt = rev u @ rev pre @ bef
            \<and> rst = pre @ u @ m_rest mt \<and> index mt = length bef + length pre"
proof (induction rst arbitrary: bef)
  case Nil
  then have "match_at re bef [] = Some mt" by simp
  from match_at_shape [OF this] show ?case by auto
next
  case (Cons c cs)
  show ?case
  proof (cases "match_at re bef (c # cs)")
    case (Some m')
    with Cons.prems have "match_at re bef (c # cs) = Some mt" by simp
    from match_at_shape [OF this] obtain u where "minlen re \<le> length u" "matched mt = u"
      "m_before mt = rev u @ bef" "c # cs = u @ m_rest mt" "index mt = length bef" by blast
    then have "minlen re \<le> length u \<and> matched mt = u \<and> m_before mt = rev u @ rev [] @ bef
            \<and> c # cs = [] @ u @ m_rest mt \<and> index mt = length bef + length ([]::string)" by simp
    then show ?thesis by blast
  next
    case None
    with Cons.prems have "search re (c # bef) cs = Some mt" by simp
    from Cons.IH [OF this] obtain pre u where "minlen re \<le> length u" "matched mt = u"
      "m_before mt = rev u @ rev pre @ c # bef" "cs = pre @ u @ m_rest mt"
      "index mt = length (c # bef) + length pre" by blast
    then have "minlen re \<le> length u \<and> matched mt = u \<and> m_before mt = rev u @ rev (c # pre) @ bef
            \<and> c # cs = (c # pre) @ u @ m_rest mt \<and> index mt = length bef + length (c # pre)" by simp
    then show ?thesis by blast
  qed
qed

lemma search_lengths:
  assumes "search re bef rst = Some mt"
  shows "length (m_before mt) + length (m_rest mt) = length bef + length rst"
    and "length bef + minlen re \<le> length (m_before mt)"
    and "length (m_rest mt) + length (matched mt) \<le> length rst"
  using search_shape [OF assms] by auto

lemma search_match_at:
  "search re bef rst = Some mt \<Longrightarrow> \<exists>b r. match_at re b r = Some mt"
proof (induction rst arbitrary: bef)
  case Nil
  then show ?case by auto
next
  case (Cons c cs)
  then show ?case by (cases "match_at re bef (c # cs)") auto
qed

text \<open>
  The counter of \<open>rep_more\<close> is never what stops an unbounded quantifier: the matcher
  reads its continuation only at states further on in the text, and from the length of
  the remaining text on, a larger counter changes nothing.
\<close>

lemma rep_min_cong:
  assumes body: "\<And>k1 k2 s. (\<And>y. reach 0 s y \<Longrightarrow> k1 y = k2 y) \<Longrightarrow> body k1 s = body k2 s"
  shows "(\<And>y. reach 0 s y \<Longrightarrow> k1 y = k2 y) \<Longrightarrow> rep_min n body k1 s = rep_min n body k2 s"
proof (induction n arbitrary: s)
  case 0
  then show ?case by (simp add: reach_refl)
next
  case (Suc n)
  have "body (rep_min n body k1) s = body (rep_min n body k2) s"
  proof (rule body)
    fix x
    assume x: "reach 0 s x"
    show "rep_min n body k1 x = rep_min n body k2 x"
    proof (rule Suc.IH)
      fix y
      assume "reach 0 x y"
      with x have "reach (0 + 0) s y" by (rule reach_trans)
      then show "k1 y = k2 y" using Suc.prems by simp
    qed
  qed
  then show ?case by simp
qed

lemma rep_more_cong:
  assumes body: "\<And>k1 k2 s. (\<And>y. reach 0 s y \<Longrightarrow> k1 y = k2 y) \<Longrightarrow> body k1 s = body k2 s"
  shows "(\<And>y. reach 0 s y \<Longrightarrow> k1 y = k2 y) \<Longrightarrow> rep_more g n body k1 s = rep_more g n body k2 s"
proof (induction n arbitrary: s)
  case 0
  then show ?case by (simp add: reach_refl)
next
  case (Suc n)
  let ?d1 = "\<lambda>y. if length (before y) = length (before s) then None else rep_more g n body k1 y"
  let ?d2 = "\<lambda>y. if length (before y) = length (before s) then None else rep_more g n body k2 y"
  have eq1: "body ?d1 s = body ?d2 s"
  proof (rule body)
    fix x
    assume x: "reach 0 s x"
    have "rep_more g n body k1 x = rep_more g n body k2 x"
    proof (rule Suc.IH)
      fix y
      assume "reach 0 x y"
      with x have "reach (0 + 0) s y" by (rule reach_trans)
      then show "k1 y = k2 y" using Suc.prems by simp
    qed
    then show "?d1 x = ?d2 x" by simp
  qed
  have eq2: "k1 s = k2 s" using Suc.prems by (simp add: reach_refl)
  show ?case unfolding rep_more.simps(2) by (simp only: eq1 eq2)
qed

lemma matcher_cong:
  "(\<And>y. reach 0 s y \<Longrightarrow> k1 y = k2 y) \<Longrightarrow> matcher r k1 s = matcher r k2 s"
proof (induction r arbitrary: k1 k2 s)
  case (Cls p)
  show ?case
  proof (cases "rest s")
    case Nil
    then show ?thesis by simp
  next
    case (Cons c cs)
    then have "reach 0 s (MState (c # before s) cs (caps s))"
      by (simp add: reach_def)
    from Cls [OF this] Cons show ?thesis by simp
  qed
next
  case Bol
  then show ?case by (simp add: reach_refl)
next
  case Eol
  then show ?case by (simp add: reach_refl)
next
  case (Cat a b)
  have "matcher a (matcher b k1) s = matcher a (matcher b k2) s"
  proof (rule Cat.IH(1))
    fix x
    assume x: "reach 0 s x"
    show "matcher b k1 x = matcher b k2 x"
    proof (rule Cat.IH(2))
      fix y
      assume "reach 0 x y"
      with x have "reach (0 + 0) s y" by (rule reach_trans)
      then show "k1 y = k2 y" using Cat.prems by simp
    qed
  qed
  then show ?case by simp
next
  case (Alt a b)
  have a: "matcher a k1 s = matcher a k2 s" using Alt.prems by (rule Alt.IH(1))
  have b: "matcher b k1 s = matcher b k2 s" using Alt.prems by (rule Alt.IH(2))
  show ?case unfolding matcher.simps(5) by (simp only: a b)
next
  case (Quant mn mx g r)
  let ?K1 = "\<lambda>y. rep_more g (case mx of None \<Rightarrow> length (rest y) | Some b \<Rightarrow> b - mn) (matcher r) k1 y"
  let ?K2 = "\<lambda>y. rep_more g (case mx of None \<Rightarrow> length (rest y) | Some b \<Rightarrow> b - mn) (matcher r) k2 y"
  have "rep_min mn (matcher r) ?K1 s = rep_min mn (matcher r) ?K2 s"
  proof (rule rep_min_cong)
    fix k1 k2 :: cont and s
    assume "\<And>y. reach 0 s y \<Longrightarrow> k1 y = k2 y"
    then show "matcher r k1 s = matcher r k2 s" by (rule Quant.IH)
  next
    fix x
    assume x: "reach 0 s x"
    show "?K1 x = ?K2 x"
    proof (rule rep_more_cong)
      fix k1 k2 :: cont and s
      assume "\<And>y. reach 0 s y \<Longrightarrow> k1 y = k2 y"
      then show "matcher r k1 s = matcher r k2 s" by (rule Quant.IH)
    next
      fix y
      assume "reach 0 x y"
      with x have "reach (0 + 0) s y" by (rule reach_trans)
      then show "k1 y = k2 y" using Quant.prems by simp
    qed
  qed
  then show ?case by simp
next
  case (Grp i r)
  have "matcher r (\<lambda>y. k1 (MState (before y) (rest y)
        ((i, rev (take (length (before y) - length (before s)) (before y))) # caps y))) s
      = matcher r (\<lambda>y. k2 (MState (before y) (rest y)
        ((i, rev (take (length (before y) - length (before s)) (before y))) # caps y))) s"
  proof (rule Grp.IH)
    fix y
    assume "reach 0 s y"
    then have "reach 0 s (MState (before y) (rest y)
        ((i, rev (take (length (before y) - length (before s)) (before y))) # caps y))"
      by (simp add: reach_def)
    then show "k1 (MState (before y) (rest y)
        ((i, rev (take (length (before y) - length (before s)) (before y))) # caps y))
      = k2 (MState (before y) (rest y)
        ((i, rev (take (length (before y) - length (before s)) (before y))) # caps y))"
      by (rule Grp.prems)
  qed
  then show ?case by simp
qed

lemma reach_progress:
  assumes "reach 0 s y" and "length (before y) \<noteq> length (before s)"
  shows "length (rest y) < length (rest s)"
  using assms by (auto simp: reach_def)

lemma matcher_no_continuation: "matcher r (\<lambda>y. None) s = None"
proof (cases "matcher r (\<lambda>y. None) s")
  case None
  then show ?thesis .
next
  case (Some z)
  from matcher_sound [OF Some] show ?thesis by simp
qed

lemma rep_more_Suc:
  "length (rest s) \<le> n \<Longrightarrow>
     rep_more g (Suc n) (matcher r) k s = rep_more g n (matcher r) k s"
proof (induction n arbitrary: s)
  case 0
  let ?d = "\<lambda>y. if length (before y) = length (before s) then None
                  else rep_more g 0 (matcher r) k y"
  have "matcher r ?d s = matcher r (\<lambda>y. None) s"
  proof (rule matcher_cong)
    fix y
    assume "reach 0 s y"
    with 0 have "length (before y) = length (before s)" by (auto simp: reach_def)
    then show "?d y = None" by simp
  qed
  then have none: "matcher r ?d s = None" by (simp add: matcher_no_continuation)
  have "rep_more g (Suc 0) (matcher r) k s
      = (if g then (case matcher r ?d s of Some z \<Rightarrow> Some z | None \<Rightarrow> k s)
         else (case k s of Some z \<Rightarrow> Some z | None \<Rightarrow> matcher r ?d s))"
    by (rule rep_more.simps(2))
  also have "\<dots> = k s" unfolding none by (cases "k s") simp_all
  finally show ?case by simp
next
  case (Suc n)
  let ?d1 = "\<lambda>y. if length (before y) = length (before s) then None
                   else rep_more g (Suc n) (matcher r) k y"
  let ?d2 = "\<lambda>y. if length (before y) = length (before s) then None
                   else rep_more g n (matcher r) k y"
  have eq: "matcher r ?d1 s = matcher r ?d2 s"
  proof (rule matcher_cong)
    fix y
    assume y: "reach 0 s y"
    show "?d1 y = ?d2 y"
    proof (cases "length (before y) = length (before s)")
      case True
      then show ?thesis by simp
    next
      case False
      from reach_progress [OF y False] Suc.prems have "length (rest y) \<le> n" by simp
      from Suc.IH [OF this] False show ?thesis by simp
    qed
  qed
  have L: "rep_more g (Suc (Suc n)) (matcher r) k s
      = (if g then (case matcher r ?d1 s of Some z \<Rightarrow> Some z | None \<Rightarrow> k s)
         else (case k s of Some z \<Rightarrow> Some z | None \<Rightarrow> matcher r ?d1 s))"
    by (rule rep_more.simps(2))
  have R: "rep_more g (Suc n) (matcher r) k s
      = (if g then (case matcher r ?d2 s of Some z \<Rightarrow> Some z | None \<Rightarrow> k s)
         else (case k s of Some z \<Rightarrow> Some z | None \<Rightarrow> matcher r ?d2 s))"
    by (rule rep_more.simps(2))
  show ?case unfolding L R by (simp only: eq)
qed

lemma rep_more_bound:
  "rep_more g (length (rest s) + extra) (matcher r) k s
     = rep_more g (length (rest s)) (matcher r) k s"
proof (induction extra)
  case 0
  then show ?case by simp
next
  case (Suc extra)
  have "rep_more g (Suc (length (rest s) + extra)) (matcher r) k s
      = rep_more g (length (rest s) + extra) (matcher r) k s"
    by (rule rep_more_Suc) simp
  with Suc show ?case by simp
qed

text \<open>A quantified character class consumes a run of characters of the class.\<close>

lemma ends_Cls_iff:
  "ends (Cls p) (MState b r cs) y \<longleftrightarrow> (\<exists>c r'. r = c # r' \<and> p c \<and> y = MState (c # b) r' cs)"
  by auto

lemma more_rel_Cls:
  "more_rel n (ends (Cls p)) (MState b r cs) y \<longleftrightarrow>
     (\<exists>u r'. r = u @ r' \<and> length u \<le> n \<and> list_all p u \<and> y = MState (rev u @ b) r' cs)"
proof (induction n arbitrary: b r)
  case 0
  then show ?case by auto
next
  case (Suc n)
  show ?case (is "?L \<longleftrightarrow> ?R")
  proof
    assume ?L
    then have "y = MState b r cs \<or> (\<exists>x. ends (Cls p) (MState b r cs) x
        \<and> length (before x) \<noteq> length (before (MState b r cs)) \<and> more_rel n (ends (Cls p)) x y)"
      by (simp only: more_rel.simps)
    then consider "y = MState b r cs"
      | x where "ends (Cls p) (MState b r cs) x" "more_rel n (ends (Cls p)) x y"
      by blast
    then show ?R
    proof cases
      case 1
      then have "r = [] @ r \<and> length ([]::string) \<le> Suc n \<and> list_all p [] \<and> y = MState (rev [] @ b) r cs"
        by simp
      then show ?thesis by blast
    next
      case 2
      from 2(1) obtain c r1 where c: "r = c # r1" "p c" "x = MState (c # b) r1 cs" by auto
      with 2(2) Suc.IH [of "c # b" r1] obtain u r' where
        u: "r1 = u @ r'" "length u \<le> n" "list_all p u" "y = MState (rev u @ c # b) r' cs"
        by (auto simp del: ends.simps)
      with c have "r = (c # u) @ r' \<and> length (c # u) \<le> Suc n \<and> list_all p (c # u)
          \<and> y = MState (rev (c # u) @ b) r' cs" by simp
      then show ?thesis by blast
    qed
  next
    assume ?R
    then obtain u r' where u: "r = u @ r'" "length u \<le> Suc n" "list_all p u"
      "y = MState (rev u @ b) r' cs" by blast
    show ?L
    proof (cases u)
      case Nil
      with u show ?thesis by simp
    next
      case (Cons c u')
      with u have "more_rel n (ends (Cls p)) (MState (c # b) (u' @ r') cs) y"
        using Suc.IH [of "c # b" "u' @ r'"] by (auto simp del: ends.simps)
      moreover from Cons u have "ends (Cls p) (MState b r cs) (MState (c # b) (u' @ r') cs)"
        by simp
      ultimately show ?thesis
        by (simp only: more_rel.simps) (auto simp del: ends.simps)
    qed
  qed
qed

lemma pow_rel_Cls:
  "pow_rel n (ends (Cls p)) (MState b r cs) y \<longleftrightarrow>
     (\<exists>u r'. r = u @ r' \<and> length u = n \<and> list_all p u \<and> y = MState (rev u @ b) r' cs)"
proof (induction n arbitrary: b r)
  case 0
  then show ?case by auto
next
  case (Suc n)
  show ?case (is "?L \<longleftrightarrow> ?R")
  proof
    assume ?L
    then have "\<exists>x. ends (Cls p) (MState b r cs) x \<and> pow_rel n (ends (Cls p)) x y"
      by (simp only: pow_rel.simps)
    then obtain x where x: "ends (Cls p) (MState b r cs) x" "pow_rel n (ends (Cls p)) x y"
      by blast
    from x(1) obtain c r1 where c: "r = c # r1" "p c" "x = MState (c # b) r1 cs" by auto
    with x(2) Suc.IH [of "c # b" r1] obtain u r' where
      u: "r1 = u @ r'" "length u = n" "list_all p u" "y = MState (rev u @ c # b) r' cs"
      by (auto simp del: ends.simps)
    with c have "r = (c # u) @ r' \<and> length (c # u) = Suc n \<and> list_all p (c # u)
        \<and> y = MState (rev (c # u) @ b) r' cs" by simp
    then show ?R by blast
  next
    assume ?R
    then obtain u r' where u: "r = u @ r'" "length u = Suc n" "list_all p u"
      "y = MState (rev u @ b) r' cs" by blast
    then obtain c u' where cu: "u = c # u'" by (cases u) auto
    with u have "pow_rel n (ends (Cls p)) (MState (c # b) (u' @ r') cs) y"
      using Suc.IH [of "c # b" "u' @ r'"] by (auto simp del: ends.simps)
    moreover from cu u have "ends (Cls p) (MState b r cs) (MState (c # b) (u' @ r') cs)"
      by simp
    ultimately show ?L by (simp only: pow_rel.simps) blast
  qed
qed

lemma ends_Quant_Cls:
  "ends (Quant mn None g (Cls p)) (MState b r cs) y \<longleftrightarrow>
     (\<exists>u r'. r = u @ r' \<and> mn \<le> length u \<and> list_all p u \<and> y = MState (rev u @ b) r' cs)"
  (is "?L \<longleftrightarrow> ?R")
proof
  assume ?L
  then obtain x where x: "pow_rel mn (ends (Cls p)) (MState b r cs) x"
    "more_rel (length (rest x)) (ends (Cls p)) x y" by auto
  from x(1) obtain u1 r1 where u1: "r = u1 @ r1" "length u1 = mn" "list_all p u1"
    "x = MState (rev u1 @ b) r1 cs" by (auto simp: pow_rel_Cls)
  with x(2) obtain u2 r' where u2: "r1 = u2 @ r'" "list_all p u2"
    "y = MState (rev u2 @ rev u1 @ b) r' cs" by (auto simp: more_rel_Cls)
  with u1 have "r = (u1 @ u2) @ r' \<and> mn \<le> length (u1 @ u2) \<and> list_all p (u1 @ u2)
      \<and> y = MState (rev (u1 @ u2) @ b) r' cs" by simp
  then show ?R by blast
next
  assume ?R
  then obtain u r' where u: "r = u @ r'" "mn \<le> length u" "list_all p u"
    "y = MState (rev u @ b) r' cs" by blast
  let ?u1 = "take mn u" and ?u2 = "drop mn u"
  let ?x = "MState (rev ?u1 @ b) (?u2 @ r') cs"
  have split: "u = ?u1 @ ?u2" by simp
  from u have p1: "list_all p ?u1" and p2: "list_all p ?u2"
    by (auto simp: list_all_iff dest: in_set_takeD in_set_dropD)
  have "r = ?u1 @ (?u2 @ r')" using u(1) by simp
  with u(2) p1 have a: "pow_rel mn (ends (Cls p)) (MState b r cs) ?x"
    unfolding pow_rel_Cls by (intro exI [of _ ?u1] exI [of _ "?u2 @ r'"]) simp
  have "rev ?u2 @ rev ?u1 = rev u" by (metis rev_append split)
  with u(4) p2 have b: "more_rel (length (rest ?x)) (ends (Cls p)) ?x y"
    unfolding more_rel_Cls by (intro exI [of _ ?u2] exI [of _ r']) simp
  from a b show ?L by auto
qed

text \<open>Captures are only added, and a group that was entered has a capture.\<close>

lemma pow_rel_caps:
  assumes R: "\<And>s y. R s y \<Longrightarrow> \<exists>new. caps y = new @ caps s"
  shows "pow_rel n R s y \<Longrightarrow> \<exists>new. caps y = new @ caps s"
proof (induction n arbitrary: s)
  case 0
  then show ?case by simp
next
  case (Suc n)
  then obtain x where "R s x" "pow_rel n R x y" by auto
  with R Suc.IH obtain n1 n2 where "caps x = n1 @ caps s" "caps y = n2 @ caps x" by blast
  then have "caps y = (n2 @ n1) @ caps s" by simp
  then show ?case by blast
qed

lemma more_rel_caps:
  assumes R: "\<And>s y. R s y \<Longrightarrow> \<exists>new. caps y = new @ caps s"
  shows "more_rel n R s y \<Longrightarrow> \<exists>new. caps y = new @ caps s"
proof (induction n arbitrary: s)
  case 0
  then show ?case by simp
next
  case (Suc n)
  then have "y = s \<or> (\<exists>x. R s x \<and> more_rel n R x y)" by auto
  then show ?case
  proof
    assume "y = s"
    then show ?thesis by simp
  next
    assume "\<exists>x. R s x \<and> more_rel n R x y"
    then obtain x where "R s x" "more_rel n R x y" by blast
    with R Suc.IH obtain n1 n2 where "caps x = n1 @ caps s" "caps y = n2 @ caps x" by blast
    then have "caps y = (n2 @ n1) @ caps s" by simp
    then show ?thesis by blast
  qed
qed

lemma ends_caps: "ends r s y \<Longrightarrow> \<exists>new. caps y = new @ caps s"
proof (induction r arbitrary: s y)
  case (Cls p)
  then show ?case by auto
next
  case Bol
  then show ?case by simp
next
  case Eol
  then show ?case by simp
next
  case (Cat a b)
  then obtain x where "ends a s x" "ends b x y" by auto
  with Cat.IH obtain n1 n2 where "caps x = n1 @ caps s" "caps y = n2 @ caps x" by blast
  then have "caps y = (n2 @ n1) @ caps s" by simp
  then show ?case by blast
next
  case (Alt a b)
  then show ?case by auto
next
  case (Quant mn mx g r)
  then obtain x where x: "pow_rel mn (ends r) s x"
    "more_rel (case mx of None \<Rightarrow> length (rest x) | Some b \<Rightarrow> b - mn) (ends r) x y" by auto
  from pow_rel_caps [where R = "ends r", OF Quant.IH x(1)]
  obtain n1 where "caps x = n1 @ caps s" by blast
  moreover from more_rel_caps [where R = "ends r", OF Quant.IH x(2)]
  obtain n2 where "caps y = n2 @ caps x" by blast
  ultimately have "caps y = (n2 @ n1) @ caps s" by simp
  then show ?case by blast
next
  case (Grp i r)
  then obtain x where "ends r s x" "caps y = (i, rev (take (length (before x) - length (before s)) (before x))) # caps x"
    by auto
  with Grp.IH [of s x] obtain n1 where "caps y = ((i, rev (take (length (before x) - length (before s)) (before x))) # n1) @ caps s"
    by auto
  then show ?case by blast
qed

lemma ends_Grp_caps:
  assumes "ends (Grp i r) s y"
  shows "map_of (caps y) i \<noteq> None"
  using assms by auto

lemma ends_keeps_group:
  assumes "ends r s y" and "map_of (caps s) i \<noteq> None"
  shows "map_of (caps y) i \<noteq> None"
proof -
  from ends_caps [OF assms(1)] obtain new where "caps y = new @ caps s" by blast
  with assms(2) show ?thesis by (auto simp: map_of_eq_None_iff)
qed

lemma ends_rest_subset:
  assumes "ends r s y"
  shows "set (rest y) \<subseteq> set (rest s)"
proof -
  from ends_reach [OF assms] obtain u where "rest s = u @ rest y" by (auto simp: reach_def)
  then show ?thesis by auto
qed

lemma ends_lit_first:
  assumes "ends (Cat (Cls (lit c)) r) s y"
  shows "c \<in> set (rest s)"
  using assms by (auto simp: lit_def)

lemma ends_lit_last:
  assumes "ends (Cat a (Cat b (Cls (lit c)))) s y"
  shows "c \<in> set (rest s)"
proof -
  from assms obtain x1 x2 where x: "ends a s x1" "ends b x1 x2" "ends (Cls (lit c)) x2 y"
    unfolding ends.simps(4) by blast
  from x(3) have "c \<in> set (rest x2)" by (auto simp: lit_def)
  with ends_rest_subset [OF x(2)] ends_rest_subset [OF x(1)] show ?thesis by blast
qed

subsection \<open>Outcomes of a call, and the loops over a global pattern\<close>

text \<open>
  A piece of JavaScript returns a value, throws, or does not come back. The handlers
  are \<^verbatim>\<open>async\<close>: returning is the promise resolving, throwing is its rejection.
  Every exception of the model is an \<^verbatim>\<open>Error\<close> object with its \<^verbatim>\<open>message\<close>.
\<close>

datatype exn = Error (message: string)

datatype 'a outcome = Returns 'a | Throws exn | Hangs

definition then_do :: "'a outcome \<Rightarrow> ('a \<Rightarrow> 'b outcome) \<Rightarrow> 'b outcome" where
  "then_do x f = (case x of Returns v \<Rightarrow> f v | Throws e \<Rightarrow> Throws e | Hangs \<Rightarrow> Hangs)"

text \<open>
  The loop \<^verbatim>\<open>while ((match = re.exec(text)) !== null) { body }\<close> over a global
  pattern. \<open>bef\<close> and \<open>rst\<close> are the text on either side of \<^verbatim>\<open>lastIndex\<close>. A match
  moves \<^verbatim>\<open>lastIndex\<close> to its end; a match that leaves it in place would be found
  again for ever, so the loop does not come back.
\<close>

function exec_while ::
  "regex \<Rightarrow> (rmatch \<Rightarrow> 'a \<Rightarrow> 'a outcome) \<Rightarrow> string \<Rightarrow> string \<Rightarrow> 'a \<Rightarrow> 'a outcome" where
  "exec_while re body bef rst acc =
     (case search re bef rst of
        None \<Rightarrow> Returns acc
      | Some mt \<Rightarrow>
          (case body mt acc of
             Returns acc' \<Rightarrow>
               if length bef < length (m_before mt)
               then exec_while re body (m_before mt) (m_rest mt) acc'
               else Hangs
           | Throws e \<Rightarrow> Throws e
           | Hangs \<Rightarrow> Hangs))"
  by pat_completeness auto
termination
proof (relation "measure (\<lambda>(re, body, bef, rst, acc). length rst)")
  show "wf (measure (\<lambda>(re, body, bef, rst, acc). length rst))" by simp
next
  fix re :: regex and body :: "rmatch \<Rightarrow> 'a \<Rightarrow> 'a outcome" and bef rst acc mt acc'
  assume "search re bef rst = Some mt" and "length bef < length (m_before mt)"
  with search_lengths(1) [of re bef rst mt]
  show "((re, body, m_before mt, m_rest mt, acc'), (re, body, bef, rst, acc))
          \<in> measure (\<lambda>(re, body, bef, rst, acc). length rst)"
    by simp
qed

text \<open>
  \<^verbatim>\<open>text.match(re)\<close> with a global pattern: all the matched texts, in order. After
  an empty match the search resumes one character further on. The handlers take
  \<^verbatim>\<open>text.match(re) || []\<close>, so no match at all is the empty list.
\<close>

function match_all :: "regex \<Rightarrow> string \<Rightarrow> string \<Rightarrow> string list" where
  "match_all re bef rst =
     (case search re bef rst of
        None \<Rightarrow> []
      | Some mt \<Rightarrow>
          matched mt #
            (if matched mt = []
             then (case m_rest mt of
                     [] \<Rightarrow> []
                   | c # cs \<Rightarrow> match_all re (c # m_before mt) cs)
             else match_all re (m_before mt) (m_rest mt)))"
  by pat_completeness auto
termination
proof (relation "measure (\<lambda>(re, bef, rst). length rst)")
  show "wf (measure (\<lambda>(re, bef, rst). length rst))" by simp
next
  fix re bef rst mt c cs
  assume "search re bef rst = Some mt" and "m_rest mt = c # cs"
  with search_lengths(3) [of re bef rst mt]
  show "((re, c # m_before mt, cs), (re, bef, rst)) \<in> measure (\<lambda>(re, bef, rst). length rst)"
    by simp
next
  fix re bef rst mt
  assume "search re bef rst = Some mt" and "matched mt \<noteq> []"
  with search_lengths(3) [of re bef rst mt]
  show "((re, m_before mt, m_rest mt), (re, bef, rst)) \<in> measure (\<lambda>(re, bef, rst). length rst)"
    by (cases "matched mt") auto
qed

text \<open>
  \<^verbatim>\<open>text.split(re)\<close>: \<open>p\<close> is the start of the current piece, \<open>length bef\<close> the
  position \<^verbatim>\<open>q\<close> at which the pattern is tried. A match that ends at \<open>p\<close> is skipped.
  The patterns the tool splits on have no capture group, so nothing but the pieces is
  returned.
\<close>

function split_loop :: "regex \<Rightarrow> nat \<Rightarrow> string \<Rightarrow> string \<Rightarrow> string list" where
  "split_loop re p bef [] = [rev (take (length bef - p) bef)]"
| "split_loop re p bef (c # cs) =
     (case match_at re bef (c # cs) of
        None \<Rightarrow> split_loop re p (c # bef) cs
      | Some z \<Rightarrow>
          if length (m_before z) = p
          then split_loop re p (c # bef) cs
          else rev (take (length bef - p) bef)
                 # split_loop re (length (m_before z)) (m_before z) (m_rest z))"
  by pat_completeness auto
termination
proof (relation "measure (\<lambda>(re, p, bef, rst). 2 * length rst + (if p = length bef then 0 else 1))")
  show "wf (measure (\<lambda>(re, p, bef, rst). 2 * length rst + (if p = length bef then 0 else 1)))"
    by simp
next
  fix re :: regex and p :: nat and bef :: string and c cs
  show "((re, p, c # bef, cs), (re, p, bef, c # cs))
     \<in> measure (\<lambda>(re, p, bef, rst). 2 * length rst + (if p = length bef then 0 else 1))"
    by simp
next
  fix re :: regex and p :: nat and bef :: string and c cs z
  show "((re, p, c # bef, cs), (re, p, bef, c # cs))
     \<in> measure (\<lambda>(re, p, bef, rst). 2 * length rst + (if p = length bef then 0 else 1))"
    by simp
next
  fix re :: regex and p :: nat and bef :: string and c cs z
  assume z: "match_at re bef (c # cs) = Some z" and "length (m_before z) \<noteq> p"
  from match_at_shape [OF z] obtain u where "m_before z = rev u @ bef" "c # cs = u @ m_rest z"
    by blast
  with \<open>length (m_before z) \<noteq> p\<close>
  show "((re, length (m_before z), m_before z, m_rest z), (re, p, bef, c # cs))
     \<in> measure (\<lambda>(re, p, bef, rst). 2 * length rst + (if p = length bef then 0 else 1))"
    by (cases u) (auto simp: )
qed

definition split :: "regex \<Rightarrow> string \<Rightarrow> string list" where
  "split re S =
     (if S = []
      then (case match_at re [] [] of None \<Rightarrow> [S] | Some z \<Rightarrow> [])
      else split_loop re 0 [] S)"

subsection \<open>The tool boundary\<close>

text \<open>
  Every handler has the form
  \<^verbatim>\<open>async (params) => { try { ...; return { success: true, ... }; }
                     catch (error) { return { success: false, error: error.message }; } }\<close>
  \<open>Success\<close> carries the payload of the first shape, \<open>Failure\<close> the error string of
  the second.
\<close>

datatype 'a result = Success 'a | Failure string

definition try_catch :: "'a outcome \<Rightarrow> (exn \<Rightarrow> 'a outcome) \<Rightarrow> 'a outcome" where
  "try_catch x handler = (case x of Returns v \<Rightarrow> Returns v | Throws e \<Rightarrow> handler e | Hangs \<Rightarrow> Hangs)"

definition undefined_property :: "string \<Rightarrow> exn" where
  \<comment> \<open>the TypeError of a property read on \<^verbatim>\<open>undefined\<close>\<close>
  "undefined_property name =
     Error (''Cannot read properties of undefined (reading '' @ [CHR 0x27] @ name
            @ [CHR 0x27] @ '')'')"

definition to_string :: "string option \<Rightarrow> string" where
  \<comment> \<open>\<^verbatim>\<open>exec\<close> converts its argument to a string; \<open>None\<close> is \<^verbatim>\<open>undefined\<close>\<close>
  "to_string v = (case v of None \<Rightarrow> ''undefined'' | Some s \<Rightarrow> s)"

text \<open>
  The \<^verbatim>\<open>params\<close> object, with the properties the three handlers read: \<^verbatim>\<open>text\<close>,
  \<^verbatim>\<open>chunkSize\<close>, \<^verbatim>\<open>chunkOverlap\<close>, \<^verbatim>\<open>metadata\<close> and \<^verbatim>\<open>language\<close>. A property that
  is absent is \<open>None\<close>. Numbers are integers; the values of a metadata object are
  opaque and modelled as strings.
\<close>

type_synonym metadata = "(string \<times> string) list"

record params =
  text_arg :: "string option"
  chunkSize :: "int option"
  chunkOverlap :: "int option"
  metadata :: "metadata option"
  language_arg :: "string option"

definition request :: "string \<Rightarrow> params" where
  \<comment> \<open>the request \<^verbatim>\<open>{ text: t }\<close>\<close>
  "request t =
     \<lparr>text_arg = Some t, chunkSize = None, chunkOverlap = None, metadata = None,
      language_arg = None\<rparr>"

subsection \<open>chunk_document\<close>

text \<open>
  \<^verbatim>\<open>const text = params.text;
  const chunkSize = params.chunkSize || 1000;
  const chunkOverlap = params.chunkOverlap || 200;
  const metadata = params.metadata || {};
  const splitter = new RecursiveCharacterTextSplitter({ chunkSize, chunkOverlap });
  const chunks = await splitter.createDocuments([text], [metadata]);
  return { success: true,
           chunks: chunks.map(chunk => ({ text: chunk.pageContent, metadata: chunk.metadata })),
           count: chunks.length };\<close>
  The splitter is the library's. The model takes it as the function \<open>lib\<close>, from the two
  sizes, the text and the metadata to the documents it makes or the error it raises,
  in the constructor or in \<^verbatim>\<open>createDocuments\<close>.
\<close>

datatype document = Document (pageContent: string) (doc_metadata: metadata)

type_synonym splitter = "int \<Rightarrow> int \<Rightarrow> string option \<Rightarrow> metadata \<Rightarrow> exn + document list"

datatype text_chunk = TextChunk (chunk_text: string) (chunk_metadata: metadata)

datatype chunk_payload = ChunkPayload (payload_chunks: "text_chunk list") (payload_count: nat)

definition or_default :: "int option \<Rightarrow> int \<Rightarrow> int" where
  \<comment> \<open>\<^verbatim>\<open>v || d\<close> on a number: \<^verbatim>\<open>undefined\<close> and 0 are falsy\<close>
  "or_default v d = (case v of None \<Rightarrow> d | Some n \<Rightarrow> if n = 0 then d else n)"

definition chunk_document_try :: "splitter \<Rightarrow> params \<Rightarrow> chunk_payload result outcome" where
  "chunk_document_try lib params =
     (let text = text_arg params;
          chunkSize = or_default (chunkSize params) 1000;
          chunkOverlap = or_default (chunkOverlap params) 200;
          metadata = (case metadata params of None \<Rightarrow> [] | Some m \<Rightarrow> m)
      in case lib chunkSize chunkOverlap text metadata of
           Inl e \<Rightarrow> Throws e
         | Inr chunks \<Rightarrow>
             Returns (Success (ChunkPayload
               (map (\<lambda>chunk. TextChunk (pageContent chunk) (doc_metadata chunk)) chunks)
               (length chunks))))"

definition chunk_document :: "splitter \<Rightarrow> params \<Rightarrow> chunk_payload result outcome" where
  "chunk_document lib params =
     try_catch (chunk_document_try lib params) (\<lambda>error. Returns (Failure (message error)))"

text \<open>
  Modelled from the spec: the splitter (RecursiveCharacterTextSplitter of the langchain
  library) is missing from the sources. This stand-in is used to run \<open>chunk_document\<close> on
  concrete requests. It follows the spec where the spec is definite: a missing text, a
  chunk size that is not positive and an overlap that is not below the chunk size are
  an InvalidArgument error, and every chunk carries the metadata that was passed in.
  Its windows have the chunk size and start every \<open>chunk size - overlap\<close> characters;
  the separators that the spec prefers as chunk boundaries are not modelled, so a text
  that fits in one window is that one chunk.
\<close>

function windows :: "nat \<Rightarrow> nat \<Rightarrow> string \<Rightarrow> string list" where
  "windows width step t =
     (if length t \<le> width \<or> step = 0 then [t]
      else take width t # windows width step (drop step t))"
  by pat_completeness auto
termination
  by (relation "measure (\<lambda>(width, step, t). length t)") auto

definition spec_splitter :: splitter where
  "spec_splitter csize overlap text md =
     (case text of
        None \<Rightarrow> Inl (Error ''InvalidArgument'')
      | Some t \<Rightarrow>
          if csize \<le> 0 \<or> csize \<le> overlap then Inl (Error ''InvalidArgument'')
          else Inr (map (\<lambda>w. Document w md) (windows (nat csize) (nat csize - nat overlap) t)))"

subsection \<open>extract_code\<close>

text \<open>
  \<^verbatim>\<open>const codeBlockRegex =
    /```(?:([a-zA-Z0-9]+)\n)?([\s\S]*?)```|(?:^[ \t]*\n)?(?:(?:[ \t]+[^\n]*\n)+)/gm;\<close>
  The first alternative is a fenced block, the second a run of indented lines, each
  with its newline, after at most one blank line.
\<close>

datatype code_block = CodeBlock (block_language: string) (code: string)

datatype code_payload =
  CodePayload (payload_codeBlocks: "code_block list") (payload_code_count: nat)

definition backtick :: regex where
  "backtick = Cls (lit CHR 0x60)"

definition codeBlockRegex :: regex where
  "codeBlockRegex =
     Alt
       (Cat backtick (Cat backtick (Cat backtick
         (Cat (Quant 0 (Some 1) True
                 (Cat (Grp 1 (Quant 1 None True (Cls alnum))) (Cls (lit CHR 0x0A))))
           (Cat (Grp 2 (Quant 0 None False (Cls any_char)))
             (Cat backtick (Cat backtick backtick)))))))
       (Cat (Quant 0 (Some 1) True
               (Cat Bol (Cat (Quant 0 None True (Cls blank)) (Cls (lit CHR 0x0A)))))
          (Quant 1 None True
             (Cat (Quant 1 None True (Cls blank))
               (Cat (Quant 0 None True (Cls not_newline)) (Cls (lit CHR 0x0A))))))"

text \<open>
  The body of the loop:
  \<^verbatim>\<open>const blockLanguage = match[1] ? match[1].toLowerCase() : 'unknown';
  const code = match[2] ? match[2].trim() : match[0].trim();
  if (!language || blockLanguage === language) {
    codeBlocks.push({ language: blockLanguage, code: code });
  }\<close>
  An empty string is falsy, like \<^verbatim>\<open>undefined\<close>.
\<close>

definition code_body :: "string option \<Rightarrow> rmatch \<Rightarrow> code_block list \<Rightarrow> code_block list outcome" where
  "code_body language match codeBlocks =
     (let blockLanguage =
            (case group match 1 of
               None \<Rightarrow> ''unknown''
             | Some g \<Rightarrow> if g = [] then ''unknown'' else toLowerCase g);
          code =
            (case group match 2 of
               None \<Rightarrow> trim (matched match)
             | Some g \<Rightarrow> if g = [] then trim (matched match) else trim g)
      in Returns
           (if (case language of None \<Rightarrow> True | Some l \<Rightarrow> blockLanguage = l)
            then codeBlocks @ [CodeBlock blockLanguage code]
            else codeBlocks))"

text \<open>
  \<^verbatim>\<open>const text = params.text;
  const language = params.language ? params.language.toLowerCase() : null;
  ...
  return { success: true, codeBlocks: codeBlocks, count: codeBlocks.length };\<close>
\<close>

definition extract_code_try :: "params \<Rightarrow> code_payload result outcome" where
  "extract_code_try params =
     (let text = text_arg params;
          language =
            (case language_arg params of
               None \<Rightarrow> None
             | Some l \<Rightarrow> if l = [] then None else Some (toLowerCase l))
      in then_do (exec_while codeBlockRegex (code_body language) [] (to_string text) [])
           (\<lambda>codeBlocks. Returns (Success (CodePayload codeBlocks (length codeBlocks)))))"

definition extract_code :: "params \<Rightarrow> code_payload result outcome" where
  "extract_code params =
     try_catch (extract_code_try params) (\<lambda>error. Returns (Failure (message error)))"

subsection \<open>analyze_document_structure\<close>

text \<open>
  \<^verbatim>\<open>const headingRegex = /^(#{1,6})\s+(.+)$/gm;
  text.split(/\n\s*\n/)
  const bulletListRegex = /^\s*[-*+]\s+.+/gm;
  const numberedListRegex = /^\s*\d+\.\s+.+/gm;
  const tableRegex = /^\|(.+)\|\s*$/gm;
  text.split(/\s+/)\<close>
\<close>

datatype heading = Heading (level: nat) (heading_text: string) (position: nat)

record structure_report =
  headings :: "heading list"
  paragraphCount :: nat
  bulletListItemCount :: nat
  numberedListItemCount :: nat
  tableRowCount :: nat
  totalLength :: nat
  wordCount :: nat

definition headingRegex :: regex where
  "headingRegex =
     Cat Bol
       (Cat (Grp 1 (Quant 1 (Some 6) True (Cls (lit CHR ''#''))))
         (Cat (Quant 1 None True (Cls white_space))
           (Cat (Grp 2 (Quant 1 None True (Cls dot))) Eol)))"

definition paragraphRegex :: regex where
  "paragraphRegex =
     Cat (Cls (lit CHR 0x0A)) (Cat (Quant 0 None True (Cls white_space)) (Cls (lit CHR 0x0A)))"

definition bulletListRegex :: regex where
  "bulletListRegex =
     Cat Bol
       (Cat (Quant 0 None True (Cls white_space))
         (Cat (Cls bullet)
           (Cat (Quant 1 None True (Cls white_space)) (Quant 1 None True (Cls dot)))))"

definition numberedListRegex :: regex where
  "numberedListRegex =
     Cat Bol
       (Cat (Quant 0 None True (Cls white_space))
         (Cat (Quant 1 None True (Cls digit))
           (Cat (Cls (lit CHR ''.''))
             (Cat (Quant 1 None True (Cls white_space)) (Quant 1 None True (Cls dot))))))"

definition tableRegex :: regex where
  "tableRegex =
     Cat Bol
       (Cat (Cls (lit CHR ''|''))
         (Cat (Grp 1 (Quant 1 None True (Cls dot)))
           (Cat (Cls (lit CHR ''|'')) (Cat (Quant 0 None True (Cls white_space)) Eol))))"

definition wordRegex :: regex where
  "wordRegex = Quant 1 None True (Cls white_space)"

text \<open>
  \<^verbatim>\<open>headings.push({ level: headingMatch[1].length, text: headingMatch[2].trim(),
                  position: headingMatch.index });\<close>
\<close>

definition heading_body :: "rmatch \<Rightarrow> heading list \<Rightarrow> heading list outcome" where
  "heading_body headingMatch found =
     (case group headingMatch 1 of
        None \<Rightarrow> Throws (undefined_property ''length'')
      | Some g1 \<Rightarrow>
          (case group headingMatch 2 of
             None \<Rightarrow> Throws (undefined_property ''trim'')
           | Some g2 \<Rightarrow>
               Returns (found @ [Heading (length g1) (trim g2) (index headingMatch)])))"

text \<open>
  The heading loop runs on \<^verbatim>\<open>headingRegex.exec(text)\<close>, which converts a missing
  text to a string; \<^verbatim>\<open>text.split\<close> after it throws when the text is missing.
  \<^verbatim>\<open>const paragraphs = text.split(/\n\s*\n/).filter(p => p.trim().length > 0);
  const bulletListItems = text.match(bulletListRegex) || [];
  const numberedListItems = text.match(numberedListRegex) || [];
  const tableRows = text.match(tableRegex) || [];
  return { success: true, structure: { headings: headings,
    paragraphCount: paragraphs.length, bulletListItemCount: bulletListItems.length,
    numberedListItemCount: numberedListItems.length, tableRowCount: tableRows.length,
    totalLength: text.length,
    wordCount: text.split(/\s+/).filter(w => w.length > 0).length } };\<close>
\<close>

definition analyze_document_structure_try :: "params \<Rightarrow> structure_report result outcome" where
  "analyze_document_structure_try params =
     (let text = text_arg params
      in then_do (exec_while headingRegex heading_body [] (to_string text) [])
           (\<lambda>headings.
              case text of
                None \<Rightarrow> Throws (undefined_property ''split'')
              | Some t \<Rightarrow>
                  (let paragraphs = filter (\<lambda>p. 0 < length (trim p)) (split paragraphRegex t);
                       bulletListItems = match_all bulletListRegex [] t;
                       numberedListItems = match_all numberedListRegex [] t;
                       tableRows = match_all tableRegex [] t
                   in Returns (Success
                        \<lparr>headings = headings,
                         paragraphCount = length paragraphs,
                         bulletListItemCount = length bulletListItems,
                         numberedListItemCount = length numberedListItems,
                         tableRowCount = length tableRows,
                         totalLength = length t,
                         wordCount = length (filter (\<lambda>w. 0 < length w) (split wordRegex t))\<rparr>))))"

definition analyze_document_structure :: "params \<Rightarrow> structure_report result outcome" where
  "analyze_document_structure params =
     try_catch (analyze_document_structure_try params)
       (\<lambda>error. Returns (Failure (message error)))"

definition report_of :: "structure_report result outcome \<Rightarrow> structure_report option" where
  \<comment> \<open>the report of a successful analysis\<close>
  "report_of x = (case x of Returns (Success r) \<Rightarrow> Some r | _ \<Rightarrow> None)"

definition succeeded :: "'a result outcome \<Rightarrow> bool" where
  \<comment> \<open>the call returned \<^verbatim>\<open>{ success: true, ... }\<close>\<close>
  "succeeded x = (case x of Returns (Success r) \<Rightarrow> True | _ \<Rightarrow> False)"

section \<open>The handlers always return\<close>

text \<open>
  Every match of the two patterns that are run in a \<^verbatim>\<open>while\<close> loop consumes a
  character, so both loops end. A heading match has both its groups.
\<close>

lemma try_catch_returns:
  "x \<noteq> Hangs \<Longrightarrow> \<exists>r. try_catch x (\<lambda>error. Returns (Failure (message error))) = Returns r"
  by (cases x) (auto simp: try_catch_def)

lemma exec_while_returns_found:
  "0 < minlen re \<Longrightarrow> (\<forall>b r mt a. search re b r = Some mt \<longrightarrow> (\<exists>a'. body mt a = Returns a')) \<Longrightarrow>
     \<exists>r. exec_while re body bef rst acc = Returns r"
proof (induction re body bef rst acc rule: exec_while.induct)
  case (1 re body bef rst acc)
  show ?case
  proof (cases "search re bef rst")
    case None
    then show ?thesis by (subst exec_while.simps) simp
  next
    case (Some mt)
    from search_lengths(2) [OF Some] "1.prems"(1) have adv: "length bef < length (m_before mt)"
      by simp
    from "1.prems"(2) Some obtain acc' where b: "body mt acc = Returns acc'" by blast
    from "1.IH" [OF Some b adv "1.prems"]
    obtain r where "exec_while re body (m_before mt) (m_rest mt) acc' = Returns r" by blast
    with Some b adv show ?thesis by (subst exec_while.simps) simp
  qed
qed

lemma minlen_headingRegex: "minlen headingRegex = 3"
  by (simp add: headingRegex_def)

lemma minlen_codeBlockRegex: "minlen codeBlockRegex = 2"
  by (simp add: codeBlockRegex_def backtick_def)

lemma code_body_returns: "\<exists>a'. code_body l mt a = Returns a'"
  by (simp add: code_body_def Let_def)

lemma ends_headingRegex_groups:
  assumes "ends headingRegex s y"
  shows "map_of (caps y) 1 \<noteq> None \<and> map_of (caps y) 2 \<noteq> None"
proof -
  let ?g1 = "Grp 1 (Quant 1 (Some 6) True (Cls (lit CHR ''#'')))"
  let ?ws = "Quant 1 None True (Cls white_space)"
  let ?g2 = "Grp 2 (Quant 1 None True (Cls dot))"
  from assms obtain x1 x2 x3 where x1: "ends ?g1 s x1" and x2: "ends ?ws x1 x2"
    and x3: "ends ?g2 x2 x3" and y: "y = x3"
    unfolding headingRegex_def ends.simps(2,3,4) by blast
  from ends_Grp_caps [OF x1] have "map_of (caps x1) 1 \<noteq> None" .
  from ends_keeps_group [OF x2 this] have "map_of (caps x2) 1 \<noteq> None" .
  from ends_keeps_group [OF x3 this] have "map_of (caps x3) 1 \<noteq> None" .
  moreover from ends_Grp_caps [OF x3] have "map_of (caps x3) 2 \<noteq> None" .
  ultimately show ?thesis using y by simp
qed

lemma heading_body_returns:
  assumes "search headingRegex bef rst = Some mt"
  shows "\<exists>a'. heading_body mt a = Returns a'"
proof -
  from search_match_at [OF assms] obtain b r where "match_at headingRegex b r = Some mt" by blast
  from match_at_sound [OF this] obtain y where "ends headingRegex (MState b r []) y"
    "groups mt = caps y" by blast
  with ends_headingRegex_groups [of "MState b r []" y]
  have "group mt 1 \<noteq> None" "group mt 2 \<noteq> None" by (simp_all add: group_def)
  then show ?thesis by (auto simp: heading_body_def)
qed

lemma chunk_document_returns: "\<exists>r. chunk_document lib params = Returns r"
  unfolding chunk_document_def
  by (rule try_catch_returns) (simp add: chunk_document_try_def Let_def split: sum.splits)

lemma extract_code_try_success:
  "\<exists>found. extract_code_try params = Returns (Success (CodePayload found (length found)))"
proof -
  let ?l = "case language_arg params of None \<Rightarrow> None
            | Some l \<Rightarrow> if l = [] then None else Some (toLowerCase l)"
  from exec_while_returns_found
         [of codeBlockRegex "code_body ?l" "[]" "to_string (text_arg params)" "[]"]
  obtain found where
    "exec_while codeBlockRegex (code_body ?l) [] (to_string (text_arg params)) [] = Returns found"
    using code_body_returns by (auto simp: minlen_codeBlockRegex)
  then show ?thesis by (simp add: extract_code_try_def Let_def then_do_def)
qed

lemma extract_code_success:
  "\<exists>bs. extract_code params = Returns (Success (CodePayload bs (length bs)))"
  using extract_code_try_success [of params] by (auto simp: extract_code_def try_catch_def)

lemma analyze_document_structure_success:
  assumes "text_arg params = Some t"
  shows "\<exists>found.
     analyze_document_structure params
       = Returns (Success
           \<lparr>headings = found,
            paragraphCount = length (filter (\<lambda>p. 0 < length (trim p)) (split paragraphRegex t)),
            bulletListItemCount = length (match_all bulletListRegex [] t),
            numberedListItemCount = length (match_all numberedListRegex [] t),
            tableRowCount = length (match_all tableRegex [] t),
            totalLength = length t,
            wordCount = length (filter (\<lambda>w. 0 < length w) (split wordRegex t))\<rparr>)"
proof -
  from exec_while_returns_found [of headingRegex heading_body "[]" t "[]"]
  obtain found where "exec_while headingRegex heading_body [] t [] = Returns found"
    using heading_body_returns by (auto simp: minlen_headingRegex)
  with assms show ?thesis
    by (simp add: analyze_document_structure_def analyze_document_structure_try_def
          try_catch_def then_do_def to_string_def Let_def)
qed

lemma analyze_document_structure_missing_text:
  assumes "text_arg params = None"
  shows "analyze_document_structure params
           = Returns (Failure (message (undefined_property ''split'')))"
proof -
  from exec_while_returns_found [of headingRegex heading_body "[]" "''undefined''" "[]"]
  obtain found where "exec_while headingRegex heading_body [] ''undefined'' [] = Returns found"
    using heading_body_returns by (auto simp: minlen_headingRegex)
  with assms show ?thesis
    by (simp add: analyze_document_structure_def analyze_document_structure_try_def
          try_catch_def then_do_def to_string_def Let_def)
qed

lemma analyze_document_structure_returns:
  "\<exists>r. analyze_document_structure params = Returns r"
proof (cases "text_arg params")
  case None
  from analyze_document_structure_missing_text [OF this] show ?thesis by blast
next
  case (Some t)
  from analyze_document_structure_success [OF this] show ?thesis by blast
qed

section \<open>The language filter\<close>

lemma lower_char_idem: "lower_char (lower_char c) = lower_char c"
proof -
  have "of_char (char_of (of_char c + 32 :: nat)) = ((of_char c + 32) mod 256 :: nat)"
    by (rule of_char_of)
  then show ?thesis
    by (auto simp: lower_char_def Let_def)
qed

lemma toLowerCase_idem: "toLowerCase (toLowerCase s) = toLowerCase s"
  by (simp add: toLowerCase_def lower_char_idem)

lemma toLowerCase_unknown: "toLowerCase ''unknown'' = ''unknown''"
  by (simp add: toLowerCase_def lower_char_def)

definition block_of :: "rmatch \<Rightarrow> code_block" where
  "block_of mt =
     CodeBlock
       (case group mt 1 of None \<Rightarrow> ''unknown'' | Some g \<Rightarrow> if g = [] then ''unknown'' else toLowerCase g)
       (case group mt 2 of None \<Rightarrow> trim (matched mt) | Some g \<Rightarrow> if g = [] then trim (matched mt) else trim g)"

lemma block_of_lower: "toLowerCase (block_language (block_of mt)) = block_language (block_of mt)"
  by (simp add: block_of_def toLowerCase_idem toLowerCase_unknown split: option.splits)

lemma code_body_None: "code_body None mt acc = Returns (acc @ [block_of mt])"
  by (simp add: code_body_def block_of_def Let_def)

lemma code_body_Some:
  "code_body (Some l) mt acc =
     Returns (if block_language (block_of mt) = l then acc @ [block_of mt] else acc)"
  by (simp add: code_body_def block_of_def Let_def)

lemma exec_while_code_filter:
  "exec_while re (code_body (Some l)) bef rst
       (filter (\<lambda>b. toLowerCase (block_language b) = l) acc)
   = then_do (exec_while re (code_body None) bef rst acc)
       (\<lambda>found. Returns (filter (\<lambda>b. toLowerCase (block_language b) = l) found))"
proof (induction re body \<equiv> "code_body None" bef rst acc rule: exec_while.induct)
  case (1 re bef rst acc)
  let ?Q = "\<lambda>b. toLowerCase (block_language b) = l"
  show ?case
  proof (cases "search re bef rst")
    case None
    then show ?thesis
      by (subst exec_while.simps, subst (2) exec_while.simps) (simp add: then_do_def)
  next
    case (Some mt)
    show ?thesis
    proof (cases "length bef < length (m_before mt)")
      case True
      have step: "filter ?Q (acc @ [block_of mt])
          = (if block_language (block_of mt) = l then filter ?Q acc @ [block_of mt] else filter ?Q acc)"
        by (simp add: block_of_lower)
      from "1.hyps" [OF Some code_body_None True]
      have "exec_while re (code_body (Some l)) (m_before mt) (m_rest mt) (filter ?Q (acc @ [block_of mt]))
        = then_do (exec_while re (code_body None) (m_before mt) (m_rest mt) (acc @ [block_of mt]))
            (\<lambda>found. Returns (filter ?Q found))" .
      with Some True step show ?thesis
        by (subst exec_while.simps, subst (2) exec_while.simps)
           (simp add: code_body_None code_body_Some)
    next
      case False
      with Some show ?thesis
        by (subst exec_while.simps, subst (2) exec_while.simps)
           (simp add: code_body_None code_body_Some then_do_def)
    qed
  qed
qed

section \<open>Table rows\<close>

text \<open>
  A table row: a line, with no line terminator in it, that begins with \<^verbatim>\<open>|\<close>
  and, once the white space at its end is dropped, ends with another \<^verbatim>\<open>|\<close>, with
  at least one character between the two.
\<close>

definition table_line :: "string \<Rightarrow> bool" where
  "table_line l =
     (list_all dot l \<and>
      (case dropWhile white_space (rev l) of
         [] \<Rightarrow> False
       | c # m \<Rightarrow>
           c = CHR ''|'' \<and>
           (case rev m of [] \<Rightarrow> False | d # body \<Rightarrow> d = CHR ''|'' \<and> body \<noteq> [])))"

lemma ends_tableRegex:
  "ends tableRegex (MState b r cs) y \<longleftrightarrow>
     (at_bol (MState b r cs) \<and>
      (\<exists>v w r'. r = CHR ''|'' # v @ CHR ''|'' # w @ r' \<and> v \<noteq> [] \<and> list_all dot v
         \<and> list_all white_space w \<and> at_eol y
         \<and> y = MState (rev w @ CHR ''|'' # rev v @ CHR ''|'' # b) r' ((1, v) # cs)))"
  (is "?L \<longleftrightarrow> ?R")
proof
  assume ?L
  then obtain x1 x2 x3 x4 x5 where
    b: "at_bol (MState b r cs)"
    and x1: "ends (Cls (lit CHR ''|'')) (MState b r cs) x1"
    and x2: "ends (Quant 1 None True (Cls dot)) x1 x2"
    and x3: "x3 = MState (before x2) (rest x2)
               ((1, rev (take (length (before x2) - length (before x1)) (before x2))) # caps x2)"
    and x4: "ends (Cls (lit CHR ''|'')) x3 x4"
    and x5: "ends (Quant 0 None True (Cls white_space)) x4 x5"
    and y: "at_eol x5" "y = x5"
    unfolding tableRegex_def by (auto simp del: ends.simps(1,6) simp add: ends.simps(3,4,7))
  from x1 obtain r1 where r1: "r = CHR ''|'' # r1" "x1 = MState (CHR ''|'' # b) r1 cs"
    by (auto simp: lit_def)
  from x2 r1 obtain v r2 where v: "r1 = v @ r2" "1 \<le> length v" "list_all dot v"
    "x2 = MState (rev v @ CHR ''|'' # b) r2 cs"
    by (auto simp: ends_Quant_Cls simp del: ends.simps)
  from x3 v r1 have x3': "x3 = MState (rev v @ CHR ''|'' # b) r2 ((1, v) # cs)" by simp
  from x4 x3' obtain r3 where r3: "r2 = CHR ''|'' # r3"
    "x4 = MState (CHR ''|'' # rev v @ CHR ''|'' # b) r3 ((1, v) # cs)"
    by (auto simp: lit_def)
  from x5 r3 obtain w r' where w: "r3 = w @ r'" "list_all white_space w"
    "x5 = MState (rev w @ CHR ''|'' # rev v @ CHR ''|'' # b) r' ((1, v) # cs)"
    by (auto simp: ends_Quant_Cls simp del: ends.simps)
  from r1 v r3 w y have "r = CHR ''|'' # v @ CHR ''|'' # w @ r' \<and> v \<noteq> [] \<and> list_all dot v
         \<and> list_all white_space w \<and> at_eol y
         \<and> y = MState (rev w @ CHR ''|'' # rev v @ CHR ''|'' # b) r' ((1, v) # cs)"
    by auto
  with b show ?R by blast
next
  assume ?R
  then obtain v w r' where b: "at_bol (MState b r cs)"
    and r: "r = CHR ''|'' # v @ CHR ''|'' # w @ r'" and v: "v \<noteq> []" "list_all dot v"
    and w: "list_all white_space w" and e: "at_eol y"
    and y: "y = MState (rev w @ CHR ''|'' # rev v @ CHR ''|'' # b) r' ((1, v) # cs)"
    by blast
  let ?x1 = "MState (CHR ''|'' # b) (v @ CHR ''|'' # w @ r') cs"
  let ?x2 = "MState (rev v @ CHR ''|'' # b) (CHR ''|'' # w @ r') cs"
  let ?x3 = "MState (rev v @ CHR ''|'' # b) (CHR ''|'' # w @ r') ((1, v) # cs)"
  let ?x4 = "MState (CHR ''|'' # rev v @ CHR ''|'' # b) (w @ r') ((1, v) # cs)"
  have 1: "ends (Cls (lit CHR ''|'')) (MState b r cs) ?x1"
    using r by (simp add: lit_def)
  have 2: "ends (Quant 1 None True (Cls dot)) ?x1 ?x2"
    unfolding ends_Quant_Cls using v
    by (intro exI [of _ v] exI [of _ "CHR ''|'' # w @ r'"]) (cases v, simp_all)
  have 3: "ends (Grp 1 (Quant 1 None True (Cls dot))) ?x1 ?x3"
    unfolding ends.simps(7) using 2 by (intro exI [of _ ?x2]) simp
  have 4: "ends (Cls (lit CHR ''|'')) ?x3 ?x4"
    by (simp add: lit_def)
  have 5: "ends (Quant 0 None True (Cls white_space)) ?x4 y"
    unfolding ends_Quant_Cls using w y by (intro exI [of _ w] exI [of _ r']) simp
  have 6: "ends Eol y y" using e by simp
  from 5 6 have "ends (Cat (Quant 0 None True (Cls white_space)) Eol) ?x4 y"
    unfolding ends.simps(4) by blast
  with 4 have "ends (Cat (Cls (lit CHR ''|'')) (Cat (Quant 0 None True (Cls white_space)) Eol)) ?x3 y"
    unfolding ends.simps(4) by blast
  with 3 have "ends (Cat (Grp 1 (Quant 1 None True (Cls dot)))
       (Cat (Cls (lit CHR ''|'')) (Cat (Quant 0 None True (Cls white_space)) Eol))) ?x1 y"
    unfolding ends.simps(4) by blast
  with 1 have "ends (Cat (Cls (lit CHR ''|'')) (Cat (Grp 1 (Quant 1 None True (Cls dot)))
       (Cat (Cls (lit CHR ''|'')) (Cat (Quant 0 None True (Cls white_space)) Eol)))) (MState b r cs) y"
    unfolding ends.simps(4) by blast
  with b show ?L
    unfolding tableRegex_def ends.simps(4) ends.simps(2) by blast
qed

lemma table_line_shape:
  assumes "table_line l"
  shows "\<exists>body ws. l = CHR ''|'' # body @ CHR ''|'' # ws \<and> body \<noteq> [] \<and> list_all dot body
           \<and> list_all white_space ws \<and> list_all dot ws"
proof -
  from assms obtain m body where d: "dropWhile white_space (rev l) = CHR ''|'' # m"
    and m: "rev m = CHR ''|'' # body" and body: "body \<noteq> []" and dot: "list_all dot l"
    by (auto simp: table_line_def split: list.splits)
  let ?tw = "takeWhile white_space (rev l)"
  have "rev l = ?tw @ CHR ''|'' # m" using d by (metis takeWhile_dropWhile_id)
  then have "l = rev (?tw @ CHR ''|'' # m)" by (metis rev_rev_ident)
  then have l: "l = CHR ''|'' # body @ CHR ''|'' # rev ?tw" using m by simp
  have ws: "list_all white_space (rev ?tw)"
    by (simp add: list_all_iff) (meson set_takeWhileD)
  from dot have "list_all dot (CHR ''|'' # body @ CHR ''|'' # rev ?tw)" by (subst l [symmetric])
  then have "list_all dot body" "list_all dot (rev ?tw)" by simp_all
  with l body ws show ?thesis by blast
qed

lemma match_at_table_needs_bar:
  assumes "\<And>r'. r \<noteq> CHR ''|'' # r'"
  shows "match_at tableRegex b r = None"
proof (rule ccontr)
  assume "match_at tableRegex b r \<noteq> None"
  then obtain mt where "match_at tableRegex b r = Some mt" by auto
  from match_at_sound [OF this] obtain y where "ends tableRegex (MState b r []) y" by blast
  then obtain r' where "r = CHR ''|'' # r'" unfolding ends_tableRegex by auto
  with assms show False by blast
qed

lemma table_line_first:
  assumes "table_line l"
  shows "\<exists>r. l = CHR ''|'' # r"
  using table_line_shape [OF assms] by auto

text \<open>
  A line break, and the rows that follow one: every row match ends in the break after
  its line, and the search finds the next row behind the break.
\<close>

definition line_break :: "string \<Rightarrow> bool" where
  "line_break b = (b = [CHR 0x0A] \<or> b = [CHR 0x0D, CHR 0x0A] \<or> b = [CHR 0x0D])"

lemma line_break_terminators:
  assumes "line_break b"
  shows "b \<noteq> []" and "list_all line_terminator b"
  using assms by (auto simp: line_break_def line_terminator_def)

lemma table_match_end:
  assumes ldot: "list_all dot l"
    and eq: "l @ brk @ rows = CHR ''|'' # v @ CHR ''|'' # w @ r'"
    and v: "list_all dot v" and w: "list_all white_space w"
    and brk: "list_all line_terminator brk"
    and rows: "rows = [] \<or> (\<exists>r. rows = CHR ''|'' # r)"
    and sep: "brk = [] \<longrightarrow> rows = []"
    and eol: "at_eol (MState b' r' cs')"
  shows "\<exists>z1 z2. brk = z1 @ z2 \<and> r' = z2 @ rows"
proof -
  let ?h = "CHR ''|'' # v @ [CHR ''|'']"
  have hdot: "list_all dot ?h" using v by (simp add: dot_def line_terminator_def)
  have bar: "\<not> white_space CHR ''|''" by (simp add: white_space_def)
  from eq have "l @ (brk @ rows) = (?h @ w) @ r'" by simp
  then consider us where "l = (?h @ w) @ us" "us @ brk @ rows = r'"
    | us where "l @ us = ?h @ w" "brk @ rows = us @ r'"
    by (auto simp only: append_eq_append_conv2)
  then show ?thesis
  proof cases
    case 1
    show ?thesis
    proof (cases us)
      case Nil
      with 1 have "brk = [] @ brk \<and> r' = brk @ rows" by simp
      then show ?thesis by blast
    next
      case (Cons c us')
      with 1 ldot have "dot c" by simp
      moreover from Cons 1 eol have "line_terminator c" by (auto simp: at_eol_def)
      ultimately show ?thesis by (simp add: dot_def)
    qed
  next
    case 2
    from 2(2) consider z2 where "brk = us @ z2" "z2 @ rows = r'"
      | zs where "brk @ zs = us" "rows = zs @ r'" "zs \<noteq> []"
      by (cases "\<exists>z2. brk = us @ z2 \<and> z2 @ rows = r'")
         (auto simp: append_eq_append_conv2)
    then show ?thesis
    proof cases
      case 1
      then show ?thesis by blast
    next
      case 2
      with rows obtain zs' where zs: "zs = CHR ''|'' # zs'" by (cases zs) auto
      from \<open>l @ us = ?h @ w\<close> 2(1) zs have e: "l @ (brk @ CHR ''|'' # zs') = ?h @ w" by simp
      then consider q where "l = ?h @ q" "q @ brk @ CHR ''|'' # zs' = w"
        | q where "l @ q = ?h" "brk @ CHR ''|'' # zs' = q @ w"
        by (auto simp only: append_eq_append_conv2)
      then have "CHR ''|'' \<in> set w"
      proof cases
        case 1
        then show ?thesis by auto
      next
        case 2
        show ?thesis
        proof (cases q)
          case Nil
          with 2 show ?thesis by auto
        next
          case (Cons c q')
          from 2(2) zs sep \<open>rows = zs @ r'\<close> obtain t brk' where t: "brk = t # brk'"
            by (cases brk) auto
          with \<open>brk @ CHR ''|'' # zs' = q @ w\<close> Cons have "c = t" by simp
          with t brk have "line_terminator c" by simp
          moreover from \<open>l @ q = ?h\<close> Cons have "c \<in> set ?h"
            by (metis in_set_conv_decomp)
          ultimately show ?thesis using hdot by (auto simp: list_all_iff dot_def)
        qed
      qed
      with w bar show ?thesis by (auto simp: list_all_iff)
    qed
  qed
qed

lemma table_line_match:
  assumes bol: "at_bol (MState b (l @ brk @ rows) [])"
    and l: "table_line l"
    and brk: "list_all line_terminator brk"
    and rows: "rows = [] \<or> (\<exists>r. rows = CHR ''|'' # r)"
    and sep: "brk = [] \<longrightarrow> rows = []"
  shows "\<exists>mt z1 z2. match_at tableRegex b (l @ brk @ rows) = Some mt \<and> brk = z1 @ z2
           \<and> m_rest mt = z2 @ rows \<and> m_before mt = rev z1 @ rev l @ b \<and> matched mt \<noteq> []"
proof -
  from table_line_shape [OF l] obtain body ws where
    shape: "l = CHR ''|'' # body @ CHR ''|'' # ws" "body \<noteq> []" "list_all dot body"
      "list_all white_space ws"
    by blast
  from l have ldot: "list_all dot l" by (simp add: table_line_def)
  let ?y = "MState (rev ws @ CHR ''|'' # rev body @ CHR ''|'' # b) (brk @ rows) [(1, body)]"
  have "at_eol ?y"
  proof (cases brk)
    case Nil
    with sep show ?thesis by (simp add: at_eol_def)
  next
    case (Cons t brk')
    with brk show ?thesis by (simp add: at_eol_def)
  qed
  with bol shape have "ends tableRegex (MState b (l @ brk @ rows) []) ?y"
    unfolding ends_tableRegex
    by (intro conjI exI [of _ body] exI [of _ ws] exI [of _ "brk @ rows"]) simp_all
  from match_at_complete [OF this] obtain mt where
    mt: "match_at tableRegex b (l @ brk @ rows) = Some mt" by auto
  from match_at_sound [OF mt] obtain y where
    y: "ends tableRegex (MState b (l @ brk @ rows) []) y" "m_rest mt = rest y" by blast
  from y(1) obtain v w r' where
    e: "l @ brk @ rows = CHR ''|'' # v @ CHR ''|'' # w @ r'" "list_all dot v"
      "list_all white_space w" "at_eol y"
      "y = MState (rev w @ CHR ''|'' # rev v @ CHR ''|'' # b) r' ((1, v) # [])"
    unfolding ends_tableRegex by blast
  from e(4,5) have "at_eol (MState (rev w @ CHR ''|'' # rev v @ CHR ''|'' # b) r' [(1, v)])"
    by simp
  from table_match_end [OF ldot e(1) e(2) e(3) brk rows sep this]
  obtain z1 z2 where z: "brk = z1 @ z2" "r' = z2 @ rows" by blast
  with y(2) e(5) have rest: "m_rest mt = z2 @ rows" by simp
  from match_at_shape [OF mt] obtain u where
    u: "matched mt = u" "m_before mt = rev u @ b" "l @ brk @ rows = u @ m_rest mt" by blast
  with rest z(1) have "u = l @ z1" by simp
  with u shape(1) have "m_before mt = rev z1 @ rev l @ b" "matched mt \<noteq> []" by simp_all
  with mt z(1) rest show ?thesis by blast
qed

lemma search_table_skip:
  "list_all line_terminator z \<Longrightarrow>
     search tableRegex bef (z @ rows) = search tableRegex (rev z @ bef) rows"
proof (induction z arbitrary: bef)
  case Nil
  then show ?case by simp
next
  case (Cons c z)
  then have "c \<noteq> CHR ''|''" by (auto simp: line_terminator_def)
  then have "match_at tableRegex bef (c # z @ rows) = None"
    by (intro match_at_table_needs_bar) simp
  with Cons show ?case by simp
qed

lemma match_all_search_cong:
  assumes "search re b1 r1 = search re b2 r2"
  shows "match_all re b1 r1 = match_all re b2 r2"
  using assms by (subst match_all.simps, subst (2) match_all.simps) simp

lemma match_all_table_nil: "match_all tableRegex b [] = []"
  by (subst match_all.simps) (simp add: match_at_table_needs_bar)

lemma match_all_table_row:
  assumes "at_bol (MState b (l @ brk @ rows) [])" and "table_line l"
    and "list_all line_terminator brk"
    and "rows = [] \<or> (\<exists>r. rows = CHR ''|'' # r)"
    and "brk = [] \<longrightarrow> rows = []"
  shows "length (match_all tableRegex b (l @ brk @ rows))
           = Suc (length (match_all tableRegex (rev brk @ rev l @ b) rows))"
proof -
  from table_line_match [OF assms] obtain mt z1 z2 where
    mt: "match_at tableRegex b (l @ brk @ rows) = Some mt" and z: "brk = z1 @ z2"
    and r: "m_rest mt = z2 @ rows" "m_before mt = rev z1 @ rev l @ b" "matched mt \<noteq> []"
    by blast
  from table_line_shape [OF assms(2)] obtain c cs where "l @ brk @ rows = c # cs" by auto
  with mt have s: "search tableRegex b (l @ brk @ rows) = Some mt" by simp
  from z assms(3) have "list_all line_terminator z2" by simp
  from search_table_skip [OF this, of "rev z1 @ rev l @ b" rows] z
  have "search tableRegex (rev z1 @ rev l @ b) (z2 @ rows)
      = search tableRegex (rev brk @ rev l @ b) rows" by simp
  then have "match_all tableRegex (rev z1 @ rev l @ b) (z2 @ rows)
      = match_all tableRegex (rev brk @ rev l @ b) rows"
    by (rule match_all_search_cong)
  with s r show ?thesis by (subst match_all.simps) simp
qed

lemma match_all_three_table_rows:
  assumes l: "table_line l1" "table_line l2" "table_line l3"
    and b: "line_break b1" "line_break b2" and fin: "fin = [] \<or> line_break fin"
  shows "length (match_all tableRegex [] (l1 @ b1 @ l2 @ b2 @ l3 @ fin)) = 3"
proof -
  from table_line_first [OF l(2)] obtain r2 where r2: "l2 = CHR ''|'' # r2" by blast
  from table_line_first [OF l(3)] obtain r3 where r3: "l3 = CHR ''|'' # r3" by blast
  note t1 = line_break_terminators [OF b(1)] and t2 = line_break_terminators [OF b(2)]
  from fin have tf: "list_all line_terminator fin"
    by (auto dest: line_break_terminators)
  have bol: "at_bol (MState (rev brk @ bef) r [])" if "brk \<noteq> []" "list_all line_terminator brk"
    for brk bef r
    using that by (cases brk rule: rev_cases) (simp_all add: at_bol_def)
  have e1: "length (match_all tableRegex [] (l1 @ b1 @ (l2 @ b2 @ l3 @ fin)))
      = Suc (length (match_all tableRegex (rev b1 @ rev l1 @ []) (l2 @ b2 @ l3 @ fin)))"
    by (rule match_all_table_row) (simp_all add: at_bol_def l t1 r2)
  have e2: "length (match_all tableRegex (rev b1 @ rev l1 @ []) (l2 @ b2 @ (l3 @ fin)))
      = Suc (length (match_all tableRegex (rev b2 @ rev l2 @ rev b1 @ rev l1 @ []) (l3 @ fin)))"
    by (rule match_all_table_row) (simp_all add: bol l t1 t2 r3)
  have "length (match_all tableRegex (rev b2 @ rev l2 @ rev b1 @ rev l1 @ []) (l3 @ fin @ []))
      = Suc (length (match_all tableRegex
               (rev fin @ rev l3 @ rev b2 @ rev l2 @ rev b1 @ rev l1 @ []) []))"
    by (rule match_all_table_row) (simp_all add: bol l t2 tf)
  then have e3: "length (match_all tableRegex (rev b2 @ rev l2 @ rev b1 @ rev l1 @ []) (l3 @ fin))
      = Suc 0"
    by (simp only: match_all_table_nil append_Nil2 list.size)
  show ?thesis by (simp only: e1 e2 e3 numeral_3_eq_3)
qed

section \<open>Code blocks need a newline or a fence\<close>

lemma ends_codeBlockRegex_needs:
  assumes "ends codeBlockRegex s y"
  shows "CHR 0x60 \<in> set (rest s) \<or> CHR 0x0A \<in> set (rest s)"
proof -
  let ?fence = "Cat backtick (Cat backtick (Cat backtick
         (Cat (Quant 0 (Some 1) True
                 (Cat (Grp 1 (Quant 1 None True (Cls alnum))) (Cls (lit CHR 0x0A))))
           (Cat (Grp 2 (Quant 0 None False (Cls any_char)))
             (Cat backtick (Cat backtick backtick))))))"
  let ?blank_line = "Quant 0 (Some 1) True
               (Cat Bol (Cat (Quant 0 None True (Cls blank)) (Cls (lit CHR 0x0A))))"
  let ?line = "Cat (Quant 1 None True (Cls blank))
               (Cat (Quant 0 None True (Cls not_newline)) (Cls (lit CHR 0x0A)))"
  from assms have "ends ?fence s y \<or> ends (Cat ?blank_line (Quant 1 None True ?line)) s y"
    unfolding codeBlockRegex_def ends.simps(5) .
  then show ?thesis
  proof
    assume "ends ?fence s y"
    then have "CHR 0x60 \<in> set (rest s)" unfolding backtick_def by (rule ends_lit_first)
    then show ?thesis ..
  next
    assume "ends (Cat ?blank_line (Quant 1 None True ?line)) s y"
    then obtain x where x: "ends ?blank_line s x" "ends (Quant 1 None True ?line) x y"
      unfolding ends.simps(4) by blast
    from x(2) obtain x' where "pow_rel 1 (ends ?line) x x'"
      unfolding ends.simps(6) by blast
    then obtain x'' where "ends ?line x x''" by (auto simp del: ends.simps)
    then have "CHR 0x0A \<in> set (rest x)" by (rule ends_lit_last)
    with ends_rest_subset [OF x(1)] show ?thesis by blast
  qed
qed

lemma match_at_codeBlockRegex_None:
  assumes "CHR 0x60 \<notin> set r" and "CHR 0x0A \<notin> set r"
  shows "match_at codeBlockRegex b r = None"
proof (rule ccontr)
  assume "match_at codeBlockRegex b r \<noteq> None"
  then obtain mt where "match_at codeBlockRegex b r = Some mt" by auto
  from match_at_sound [OF this] obtain y where "ends codeBlockRegex (MState b r []) y" by blast
  from ends_codeBlockRegex_needs [OF this] assms show False by simp
qed

lemma search_codeBlockRegex_None:
  "CHR 0x60 \<notin> set r \<Longrightarrow> CHR 0x0A \<notin> set r \<Longrightarrow> search codeBlockRegex b r = None"
proof (induction r arbitrary: b)
  case Nil
  then show ?case by (simp add: match_at_codeBlockRegex_None)
next
  case (Cons c cs)
  from Cons.prems have "match_at codeBlockRegex b (c # cs) = None"
    by (rule match_at_codeBlockRegex_None)
  with Cons show ?case by simp
qed

section \<open>The state that outlasts a call\<close>

text \<open>
  The handlers above are written as functions of the request. What a call could carry
  over to the next is the \<^verbatim>\<open>lastIndex\<close> of a global RegExp object, from which
  \<^verbatim>\<open>exec\<close> resumes, and whatever the splitter library keeps. Here the handlers are
  written once more with that state passed through: the RegExp objects made so far,
  each with its \<^verbatim>\<open>lastIndex\<close>, and the state of the library.
\<close>

record 'l server_state =
  next_regexp :: nat
  lastIndex :: "nat \<Rightarrow> nat"
  splitter_state :: 'l


definition set_lastIndex :: "nat \<Rightarrow> nat \<Rightarrow> 'l server_state \<Rightarrow> 'l server_state" where
  "set_lastIndex a i \<sigma> = \<sigma>\<lparr>lastIndex := (lastIndex \<sigma>)(a := i)\<rparr>"

text \<open>
  \<^verbatim>\<open>re.exec(S)\<close> on the object \<open>a\<close> of a global pattern: the search starts at the
  object's \<^verbatim>\<open>lastIndex\<close>; a match stores its end there, a failure stores 0.
\<close>

definition regexp_exec ::
  "regex \<Rightarrow> nat \<Rightarrow> string \<Rightarrow> 'l server_state \<Rightarrow> rmatch option \<times> 'l server_state" where
  "regexp_exec re a S \<sigma> =
     (let i = lastIndex \<sigma> a
      in if length S < i then (None, set_lastIndex a 0 \<sigma>)
         else (case search re (rev (take i S)) (drop i S) of
                 None \<Rightarrow> (None, set_lastIndex a 0 \<sigma>)
               | Some mt \<Rightarrow> (Some mt, set_lastIndex a (length (m_before mt)) \<sigma>)))"

lemma regexp_exec_Some:
  assumes "fst (regexp_exec re a S \<sigma>) = Some mt"
  shows "lastIndex \<sigma> a \<le> length S"
    and "search re (rev (take (lastIndex \<sigma> a) S)) (drop (lastIndex \<sigma> a) S) = Some mt"
    and "snd (regexp_exec re a S \<sigma>) = set_lastIndex a (length (m_before mt)) \<sigma>"
    and "rev (m_before mt) @ m_rest mt = S"
proof -
  from assms show 1: "lastIndex \<sigma> a \<le> length S"
    by (auto simp: regexp_exec_def Let_def split: if_splits)
  from assms show 2: "search re (rev (take (lastIndex \<sigma> a) S)) (drop (lastIndex \<sigma> a) S) = Some mt"
    by (auto simp: regexp_exec_def Let_def split: if_splits option.splits)
  with 1 show "snd (regexp_exec re a S \<sigma>) = set_lastIndex a (length (m_before mt)) \<sigma>"
    by (simp add: regexp_exec_def Let_def)
  from search_shape [OF 2] obtain pre u where
    "m_before mt = rev u @ rev pre @ rev (take (lastIndex \<sigma> a) S)"
    "drop (lastIndex \<sigma> a) S = pre @ u @ m_rest mt" by blast
  then have "rev (m_before mt) @ m_rest mt = take (lastIndex \<sigma> a) S @ drop (lastIndex \<sigma> a) S"
    by simp
  then show "rev (m_before mt) @ m_rest mt = S" by simp
qed


text \<open>The loop \<^verbatim>\<open>while ((match = re.exec(text)) !== null) { body }\<close> on the object.\<close>

function exec_while_st ::
  "regex \<Rightarrow> nat \<Rightarrow> (rmatch \<Rightarrow> 'a \<Rightarrow> 'a outcome) \<Rightarrow> string \<Rightarrow> 'a \<Rightarrow> 'l server_state
     \<Rightarrow> 'a outcome \<times> 'l server_state" where
  "exec_while_st re a body S acc \<sigma> =
     (let r = regexp_exec re a S \<sigma>
      in case fst r of
           None \<Rightarrow> (Returns acc, snd r)
         | Some mt \<Rightarrow>
             (case body mt acc of
                Returns acc' \<Rightarrow>
                  if lastIndex \<sigma> a < lastIndex (snd r) a
                  then exec_while_st re a body S acc' (snd r)
                  else (Hangs, snd r)
              | Throws e \<Rightarrow> (Throws e, snd r)
              | Hangs \<Rightarrow> (Hangs, snd r)))"
  by pat_completeness auto
termination
proof (relation "measure (\<lambda>(re, a, body, S, acc, \<sigma>). length S - lastIndex \<sigma> a)")
  show "wf (measure (\<lambda>(re, a, body, S, acc, \<sigma>). length S - lastIndex \<sigma> a))" by simp
next
  fix re a and body :: "rmatch \<Rightarrow> 'a \<Rightarrow> 'a outcome" and S acc and \<sigma> :: "'l server_state"
    and r mt acc'
  assume r: "r = regexp_exec re a S \<sigma>" and m: "fst r = Some mt"
    and adv: "lastIndex \<sigma> a < lastIndex (snd r) a"
  from m r have f: "fst (regexp_exec re a S \<sigma>) = Some mt" by simp
  from regexp_exec_Some(3) [OF f] r have new: "lastIndex (snd r) a = length (m_before mt)"
    by (simp add: set_lastIndex_def)
  from regexp_exec_Some(4) [OF f] have "length (m_before mt) \<le> length S"
    by (metis length_append length_rev le_add1)
  with adv new show "((re, a, body, S, acc', snd r), (re, a, body, S, acc, \<sigma>))
    \<in> measure (\<lambda>(re, a, body, S, acc, \<sigma>). length S - lastIndex \<sigma> a)"
    by simp
qed












definition fresh_server :: "nat server_state" where
  "fresh_server = \<lparr>next_regexp = 0, lastIndex = (\<lambda>a. 0), splitter_state = 0\<rparr>"

definition used_server :: "nat server_state" where
  "used_server = \<lparr>next_regexp = 5, lastIndex = (\<lambda>a. 7), splitter_state = 3\<rparr>"

text \<open>
  The loop by itself does depend on the state: on an object that was left at
  \<^verbatim>\<open>lastIndex\<close> 7 it finds nothing in a text of four characters, where it finds a
  block on a new object.
\<close>

lemma exec_while_st_reads_lastIndex:
  "fst (exec_while_st codeBlockRegex 0 (code_body None) (''  a'' @ [CHR 0x0A]) [] fresh_server)
     = Returns [CodeBlock ''unknown'' ''a'']
   \<and> fst (exec_while_st codeBlockRegex 0 (code_body None) (''  a'' @ [CHR 0x0A]) [] used_server)
     = Returns []"
  by code_simp

section \<open>The claims\<close>

text \<open>
  C1, amended. Every call of the three operations returns, and what it returns is either
  \<^verbatim>\<open>{success: true, payload}\<close> or \<^verbatim>\<open>{success: false, error}\<close>: the handlers never hang
  on a text and never let an exception out. The TypeError of a missing text comes back
  from \<^verbatim>\<open>analyze_document_structure\<close> as a failure result. An error that the splitter
  raises, as it does when the overlap it is given is not below the chunk size, comes
  back from \<^verbatim>\<open>chunk_document\<close> as a failure result that carries the error's message.
  The sizes the splitter is given are the effective ones: a missing or zero
  \<^verbatim>\<open>chunkSize\<close> is 1000 and a missing or zero \<^verbatim>\<open>chunkOverlap\<close> is 200.
\<close>

theorem handlers_return_uniform_results:
  "((\<exists>payload. chunk_document lib params = Returns (Success payload))
      \<or> (\<exists>msg. chunk_document lib params = Returns (Failure msg)))
   \<and> ((\<exists>payload. extract_code params = Returns (Success payload))
      \<or> (\<exists>msg. extract_code params = Returns (Failure msg)))
   \<and> ((\<exists>payload. analyze_document_structure params = Returns (Success payload))
      \<or> (\<exists>msg. analyze_document_structure params = Returns (Failure msg)))
   \<and> (text_arg params = None \<longrightarrow>
        analyze_document_structure params
          = Returns (Failure (message (undefined_property ''split''))))
   \<and> (\<forall>e. lib (or_default (chunkSize params) 1000) (or_default (chunkOverlap params) 200)
              (text_arg params) (case metadata params of None \<Rightarrow> [] | Some m \<Rightarrow> m) = Inl e
          \<longrightarrow> chunk_document lib params = Returns (Failure (message e)))"
proof -
  have shape: "(\<exists>payload. h = Returns (Success payload)) \<or> (\<exists>msg. h = Returns (Failure msg))"
    if "\<exists>r. h = Returns r" for h :: "'a result outcome"
  proof -
    from that obtain r where "h = Returns r" by blast
    then show ?thesis by (cases r) auto
  qed
  have a: "(\<exists>payload. chunk_document lib params = Returns (Success payload))
      \<or> (\<exists>msg. chunk_document lib params = Returns (Failure msg))"
    by (rule shape) (rule chunk_document_returns)
  have b: "(\<exists>payload. extract_code params = Returns (Success payload))
      \<or> (\<exists>msg. extract_code params = Returns (Failure msg))"
    using extract_code_success [of params] by blast
  have c: "(\<exists>payload. analyze_document_structure params = Returns (Success payload))
      \<or> (\<exists>msg. analyze_document_structure params = Returns (Failure msg))"
    by (rule shape) (rule analyze_document_structure_returns)
  have d: "text_arg params = None \<longrightarrow>
        analyze_document_structure params
          = Returns (Failure (message (undefined_property ''split'')))"
    using analyze_document_structure_missing_text [of params] by blast
  have e: "\<forall>e. lib (or_default (chunkSize params) 1000) (or_default (chunkOverlap params) 200)
              (text_arg params) (case metadata params of None \<Rightarrow> [] | Some m \<Rightarrow> m) = Inl e
          \<longrightarrow> chunk_document lib params = Returns (Failure (message e))"
    by (simp add: chunk_document_def chunk_document_try_def try_catch_def Let_def)
  from a b c d e show ?thesis by blast
qed

text \<open>
  C1 at a request whose overlap is not below its chunk size, and at a request with no
  text.
\<close>

theorem handlers_return_uniform_results_witness:
  "chunk_document spec_splitter
     \<lparr>text_arg = Some ''hello'', chunkSize = Some 100, chunkOverlap = Some 100,
      metadata = None, language_arg = None\<rparr>
     = Returns (Failure ''InvalidArgument'')
   \<and> analyze_document_structure
     \<lparr>text_arg = None, chunkSize = None, chunkOverlap = None,
      metadata = None, language_arg = None\<rparr>
     = Returns (Failure (message (undefined_property ''split'')))"
proof -
  let ?p = "\<lparr>text_arg = Some ''hello'', chunkSize = Some 100, chunkOverlap = Some 100,
      metadata = None, language_arg = None\<rparr>"
  let ?q = "\<lparr>text_arg = None, chunkSize = None, chunkOverlap = None,
      metadata = None, language_arg = None\<rparr>"
  have "spec_splitter (or_default (chunkSize ?p) 1000) (or_default (chunkOverlap ?p) 200)
          (text_arg ?p) (case metadata ?p of None \<Rightarrow> [] | Some m \<Rightarrow> m)
        = Inl (Error ''InvalidArgument'')"
    by (simp add: spec_splitter_def or_default_def)
  with handlers_return_uniform_results [of spec_splitter ?p]
  have "chunk_document spec_splitter ?p = Returns (Failure (message (Error ''InvalidArgument'')))"
    by blast
  moreover from handlers_return_uniform_results [of spec_splitter ?q]
  have "analyze_document_structure ?q = Returns (Failure (message (undefined_property ''split'')))"
    by simp
  ultimately show ?thesis by simp
qed

text \<open>
  C1 as stated fails: a request with \<^verbatim>\<open>chunkSize: 0\<close> and \<^verbatim>\<open>chunkOverlap: 5\<close> has an
  overlap that is not below its chunk size, and it succeeds, since the zero is replaced
  by 1000 before the splitter sees it.
\<close>

theorem overlap_not_below_size_counterexample:
  "succeeded (chunk_document spec_splitter
     \<lparr>text_arg = Some ''hello'', chunkSize = Some 0, chunkOverlap = Some 5,
      metadata = None, language_arg = None\<rparr>)"
  by (simp add: succeeded_def chunk_document_def chunk_document_try_def try_catch_def
        or_default_def spec_splitter_def)

text \<open>
  C2, amended. The handler does not check \<^verbatim>\<open>chunkSize\<close> itself; its result is a
  function of the request and of what the splitter answers. A \<^verbatim>\<open>chunkSize\<close> of 0
  is handled exactly as a missing one. A negative \<^verbatim>\<open>chunkSize\<close> reaches the splitter
  unchanged, and when the splitter rejects it the call returns a failure result with
  the splitter's message.
\<close>

theorem chunk_document_size_not_positive:
  "(chunkSize params = Some 0 \<longrightarrow>
      chunk_document lib params = chunk_document lib (params\<lparr>chunkSize := None\<rparr>))
   \<and> (\<forall>n e. chunkSize params = Some n \<longrightarrow> n < 0 \<longrightarrow>
        lib n (or_default (chunkOverlap params) 200) (text_arg params)
          (case metadata params of None \<Rightarrow> [] | Some m \<Rightarrow> m) = Inl e \<longrightarrow>
        chunk_document lib params = Returns (Failure (message e)))"
  by (simp add: chunk_document_def chunk_document_try_def try_catch_def or_default_def Let_def)

text \<open>C2, amended, at \<^verbatim>\<open>chunkSize: -5\<close> and at \<^verbatim>\<open>chunkSize: 0\<close>.\<close>

theorem chunk_document_size_not_positive_witness:
  "chunk_document spec_splitter
     \<lparr>text_arg = Some ''hello'', chunkSize = Some (- 5), chunkOverlap = None,
      metadata = None, language_arg = None\<rparr>
   = Returns (Failure ''InvalidArgument'')
   \<and> chunk_document spec_splitter
     \<lparr>text_arg = Some ''hello'', chunkSize = Some 0, chunkOverlap = None,
      metadata = None, language_arg = None\<rparr>
   = chunk_document spec_splitter
     \<lparr>text_arg = Some ''hello'', chunkSize = None, chunkOverlap = None,
      metadata = None, language_arg = None\<rparr>"
proof -
  let ?p = "\<lparr>text_arg = Some ''hello'', chunkSize = Some (- 5), chunkOverlap = None,
      metadata = None, language_arg = None\<rparr>"
  let ?z = "\<lparr>text_arg = Some ''hello'', chunkSize = Some 0, chunkOverlap = None,
      metadata = None, language_arg = None\<rparr>"
  have "spec_splitter (- 5) (or_default (chunkOverlap ?p) 200) (text_arg ?p)
          (case metadata ?p of None \<Rightarrow> [] | Some m \<Rightarrow> m) = Inl (Error ''InvalidArgument'')"
    by (simp add: spec_splitter_def or_default_def)
  with chunk_document_size_not_positive [of ?p spec_splitter]
  have a: "chunk_document spec_splitter ?p = Returns (Failure (message (Error ''InvalidArgument'')))"
    by simp
  from chunk_document_size_not_positive [of ?z spec_splitter]
  have b: "chunk_document spec_splitter ?z = chunk_document spec_splitter (?z\<lparr>chunkSize := None\<rparr>)"
    by simp
  from a b show ?thesis by simp
qed

text \<open>
  C2 as stated fails at \<^verbatim>\<open>chunkSize: 0\<close>: the call succeeds.
\<close>

theorem zero_chunk_size_counterexample:
  "succeeded (chunk_document spec_splitter
     \<lparr>text_arg = Some ''hello'', chunkSize = Some 0, chunkOverlap = None,
      metadata = None, language_arg = None\<rparr>)"
  by (simp add: succeeded_def chunk_document_def chunk_document_try_def try_catch_def
        or_default_def spec_splitter_def)

text \<open>
  C3, amended. On \<^verbatim>\<open>"# Title\n\nSome text\n\n## Sub"\<close> the analysis returns exactly the
  headings \<^verbatim>\<open>{level: 1, text: "Title", position: 0}\<close> and
  \<^verbatim>\<open>{level: 2, text: "Sub", position: 20}\<close>, in this order, and \<^verbatim>\<open>paragraphCount\<close> is 3:
  each heading line is a block between blank lines and counts as a paragraph.
\<close>

theorem analyze_heading_example:
  "analyze_document_structure (request ''# Title\<newline>\<newline>Some text\<newline>\<newline>## Sub'')
   = Returns (Success
       \<lparr>headings = [Heading 1 ''Title'' 0, Heading 2 ''Sub'' 20],
        paragraphCount = 3, bulletListItemCount = 0, numberedListItemCount = 0,
        tableRowCount = 0, totalLength = 26, wordCount = 6\<rparr>)"
  by code_simp

text \<open>
  C3 as stated fails: the paragraph count of the example is not 2.
\<close>

theorem analyze_heading_example_counterexample:
  "map_option paragraphCount
     (report_of (analyze_document_structure
        (request ''# Title\<newline>\<newline>Some text\<newline>\<newline>## Sub'')))
   \<noteq> Some 2"
  by code_simp

text \<open>
  C4 and C5 are about the chunks that the splitter makes. The handler passes the text
  and the metadata to the splitter and returns the text and the metadata of every
  document it gets back; the sources do not say what the splitter puts into them.
\<close>

text \<open>
  C6, amended. For a language argument \<open>L\<close> that is not the empty string,
  \<^verbatim>\<open>extract_code\<close> returns exactly the blocks of the unfiltered result whose language
  equals \<open>L\<close> when both are put in lower case, in the same order, and their number.
  With no language argument, and with the empty string, it returns all the blocks.
\<close>

theorem extract_code_language_filter:
  "\<exists>found.
     extract_code (params\<lparr>language_arg := None\<rparr>)
       = Returns (Success (CodePayload found (length found)))
     \<and> extract_code (params\<lparr>language_arg := Some []\<rparr>)
       = Returns (Success (CodePayload found (length found)))
     \<and> (\<forall>L. L \<noteq> [] \<longrightarrow>
          extract_code (params\<lparr>language_arg := Some L\<rparr>)
            = Returns (Success (CodePayload
                (filter (\<lambda>b. toLowerCase (block_language b) = toLowerCase L) found)
                (length (filter (\<lambda>b. toLowerCase (block_language b) = toLowerCase L) found)))))"
proof -
  let ?t = "to_string (text_arg params)"
  from exec_while_returns_found [of codeBlockRegex "code_body None" "[]" ?t "[]"]
  obtain found where found: "exec_while codeBlockRegex (code_body None) [] ?t [] = Returns found"
    using code_body_returns by (auto simp: minlen_codeBlockRegex)
  have a: "extract_code (params\<lparr>language_arg := None\<rparr>)
       = Returns (Success (CodePayload found (length found)))"
    using found by (simp add: extract_code_def extract_code_try_def try_catch_def then_do_def)
  have b: "extract_code (params\<lparr>language_arg := Some []\<rparr>)
       = Returns (Success (CodePayload found (length found)))"
    using found by (simp add: extract_code_def extract_code_try_def try_catch_def then_do_def)
  have c: "extract_code (params\<lparr>language_arg := Some L\<rparr>)
            = Returns (Success (CodePayload
                (filter (\<lambda>b. toLowerCase (block_language b) = toLowerCase L) found)
                (length (filter (\<lambda>b. toLowerCase (block_language b) = toLowerCase L) found))))"
    if "L \<noteq> []" for L
  proof -
    from exec_while_code_filter [of codeBlockRegex "toLowerCase L" "[]" ?t "[]"] found
    have "exec_while codeBlockRegex (code_body (Some (toLowerCase L))) [] ?t []
      = Returns (filter (\<lambda>b. toLowerCase (block_language b) = toLowerCase L) found)"
      by (simp add: then_do_def)
    with that show ?thesis
      by (simp add: extract_code_def extract_code_try_def try_catch_def then_do_def)
  qed
  from a b c show ?thesis by blast
qed

text \<open>
  C6, amended, on a text with a fenced block tagged \<^verbatim>\<open>JS\<close> and an indented line,
  filtered for \<^verbatim>\<open>Js\<close>.
\<close>

theorem extract_code_language_filter_witness:
  "extract_code
     \<lparr>text_arg = Some [CHR 0x60, CHR 0x60, CHR 0x60, CHR ''J'', CHR ''S'', CHR 0x0A, CHR ''x'',
                      CHR 0x60, CHR 0x60, CHR 0x60, CHR 0x0A, CHR 0x20, CHR ''y'', CHR 0x0A],
      chunkSize = None, chunkOverlap = None, metadata = None, language_arg = Some ''Js''\<rparr>
   = Returns (Success (CodePayload [CodeBlock ''js'' ''x''] 1))"
proof -
  let ?t = "[CHR 0x60, CHR 0x60, CHR 0x60, CHR ''J'', CHR ''S'', CHR 0x0A, CHR ''x'',
                      CHR 0x60, CHR 0x60, CHR 0x60, CHR 0x0A, CHR 0x20, CHR ''y'', CHR 0x0A]"
  let ?p = "\<lparr>text_arg = Some ?t,
      chunkSize = None, chunkOverlap = None, metadata = None, language_arg = None\<rparr>"
  have all: "extract_code (?p\<lparr>language_arg := None\<rparr>)
     = Returns (Success (CodePayload [CodeBlock ''js'' ''x'', CodeBlock ''unknown'' ''y''] 2))"
    by code_simp
  from extract_code_language_filter [of ?p] obtain found where
    f: "extract_code (?p\<lparr>language_arg := None\<rparr>) = Returns (Success (CodePayload found (length found)))"
    and g: "\<forall>L. L \<noteq> [] \<longrightarrow>
          extract_code (?p\<lparr>language_arg := Some L\<rparr>)
            = Returns (Success (CodePayload
                (filter (\<lambda>b. toLowerCase (block_language b) = toLowerCase L) found)
                (length (filter (\<lambda>b. toLowerCase (block_language b) = toLowerCase L) found))))"
    by blast
  from f all have "found = [CodeBlock ''js'' ''x'', CodeBlock ''unknown'' ''y'']" by simp
  moreover from g have "extract_code (?p\<lparr>language_arg := Some ''Js''\<rparr>)
            = Returns (Success (CodePayload
                (filter (\<lambda>b. toLowerCase (block_language b) = toLowerCase ''Js'') found)
                (length (filter (\<lambda>b. toLowerCase (block_language b) = toLowerCase ''Js'') found))))"
    by simp
  ultimately have "extract_code (?p\<lparr>language_arg := Some ''Js''\<rparr>)
            = Returns (Success (CodePayload
                (filter (\<lambda>b. toLowerCase (block_language b) = toLowerCase ''Js'')
                   [CodeBlock ''js'' ''x'', CodeBlock ''unknown'' ''y''])
                (length (filter (\<lambda>b. toLowerCase (block_language b) = toLowerCase ''Js'')
                   [CodeBlock ''js'' ''x'', CodeBlock ''unknown'' ''y'']))))"
    by simp
  moreover have "filter (\<lambda>b. toLowerCase (block_language b) = toLowerCase ''Js'')
                   [CodeBlock ''js'' ''x'', CodeBlock ''unknown'' ''y''] = [CodeBlock ''js'' ''x'']"
    by code_simp
  ultimately show ?thesis by simp
qed

text \<open>
  C6 as stated fails for the empty string: no block has the empty language, yet the
  block tagged \<^verbatim>\<open>js\<close> is returned.
\<close>

theorem empty_language_counterexample:
  "extract_code
     \<lparr>text_arg = Some [CHR 0x60, CHR 0x60, CHR 0x60, CHR ''j'', CHR ''s'', CHR 0x0A, CHR ''x'',
                      CHR 0x60, CHR 0x60, CHR 0x60],
      chunkSize = None, chunkOverlap = None, metadata = None, language_arg = Some ''''\<rparr>
   = Returns (Success (CodePayload [CodeBlock ''js'' ''x''] 1))"
  by code_simp

text \<open>
  C7, amended. A text of three table rows, one to a line, has \<^verbatim>\<open>tableRowCount\<close> 3,
  whatever the rows are: a row begins with a bar and ends with a bar before the white
  space at the end of its line, and has at least one character between the two bars.
  The lines may end in \<^verbatim>\<open>\n\<close>, \<^verbatim>\<open>\r\n\<close> or \<^verbatim>\<open>\r\<close>, and the last may end the
  text.
\<close>

theorem table_rows_counted:
  assumes "table_line l1" and "table_line l2" and "table_line l3"
    and "line_break b1" and "line_break b2" and "end_of_text = [] \<or> line_break end_of_text"
    and "text_arg params = Some (l1 @ b1 @ l2 @ b2 @ l3 @ end_of_text)"
  shows "\<exists>report. analyze_document_structure params = Returns (Success report)
           \<and> tableRowCount report = 3"
proof -
  from analyze_document_structure_success [OF assms(7)] obtain report where
    r: "analyze_document_structure params = Returns (Success report)"
    "tableRowCount report
       = length (match_all tableRegex [] (l1 @ b1 @ l2 @ b2 @ l3 @ end_of_text))"
    by auto
  with match_all_three_table_rows [OF assms(1-6)] show ?thesis by simp
qed

text \<open>
  C7, amended, on a header row, a separator row that ends in \<^verbatim>\<open>\r\n\<close>, and a data row
  with spaces and a newline after it.
\<close>

theorem table_rows_counted_witness:
  "map_option tableRowCount
     (report_of (analyze_document_structure
        (request (''| a | b |'' @ [CHR 0x0A] @ ''|---|---|'' @ [CHR 0x0D, CHR 0x0A]
                  @ ''| c | d |  '' @ [CHR 0x0A]))))
   = Some 3"
proof -
  have l: "table_line ''| a | b |''" "table_line ''|---|---|''" "table_line ''| c | d |  ''"
    by code_simp+
  have b: "line_break [CHR 0x0A]" "line_break [CHR 0x0D, CHR 0x0A]"
    "[CHR 0x0A] = [] \<or> line_break [CHR 0x0A]"
    by (simp_all add: line_break_def)
  have t: "text_arg (request (''| a | b |'' @ [CHR 0x0A] @ ''|---|---|'' @ [CHR 0x0D, CHR 0x0A]
                  @ ''| c | d |  '' @ [CHR 0x0A]))
      = Some (''| a | b |'' @ [CHR 0x0A] @ ''|---|---|'' @ [CHR 0x0D, CHR 0x0A]
                  @ ''| c | d |  '' @ [CHR 0x0A])"
    by (simp add: request_def)
  from table_rows_counted [OF l b t] show ?thesis by (auto simp: report_of_def)
qed

text \<open>
  C7 as stated fails: the three lines \<^verbatim>\<open>||\<close> begin and end with a bar, and none of
  them is counted, since the pattern wants a character between the bars.
\<close>

theorem empty_table_rows_counterexample:
  "map_option tableRowCount
     (report_of (analyze_document_structure (request ''||\<newline>||\<newline>||'')))
   = Some 0"
  by code_simp



text \<open>
  C9. In \<^verbatim>\<open>chunk_document\<close> a \<^verbatim>\<open>chunkSize\<close> of 0 and a \<^verbatim>\<open>chunkOverlap\<close> of 0 are
  treated as if they were missing: the splitter is run with 1000 and 200, whatever the
  splitter is. So no request gets a zero overlap, and a zero chunk size is not
  rejected.
\<close>

theorem chunk_document_falsy_defaults:
  "chunk_document lib (params\<lparr>chunkSize := Some 0\<rparr>)
     = chunk_document lib (params\<lparr>chunkSize := None\<rparr>)
   \<and> chunk_document lib (params\<lparr>chunkSize := None\<rparr>)
     = chunk_document lib (params\<lparr>chunkSize := Some 1000\<rparr>)
   \<and> chunk_document lib (params\<lparr>chunkOverlap := Some 0\<rparr>)
     = chunk_document lib (params\<lparr>chunkOverlap := None\<rparr>)
   \<and> chunk_document lib (params\<lparr>chunkOverlap := None\<rparr>)
     = chunk_document lib (params\<lparr>chunkOverlap := Some 200\<rparr>)
   \<and> chunk_document lib (params\<lparr>chunkSize := Some 0, chunkOverlap := Some 0\<rparr>)
     = (case lib 1000 200 (text_arg params) (case metadata params of None \<Rightarrow> [] | Some m \<Rightarrow> m) of
          Inl e \<Rightarrow> Returns (Failure (message e))
        | Inr chunks \<Rightarrow>
            Returns (Success (ChunkPayload
              (map (\<lambda>chunk. TextChunk (pageContent chunk) (doc_metadata chunk)) chunks)
              (length chunks))))"
  by (simp add: chunk_document_def chunk_document_try_def try_catch_def or_default_def Let_def
        split: sum.splits)

text \<open>
  C10. An indented line counts as code only when a newline ends it: a text with no
  newline in it, and no backtick, has no code block, so \<^verbatim>\<open>extract_code\<close> returns an
  empty \<^verbatim>\<open>codeBlocks\<close> and count 0.
\<close>

theorem extract_code_needs_newline:
  assumes "text_arg params = Some t" and "CHR 0x0A \<notin> set t" and "CHR 0x60 \<notin> set t"
  shows "extract_code params = Returns (Success (CodePayload [] 0))"
proof -
  from assms(2,3) have "search codeBlockRegex [] t = None"
    by (simp add: search_codeBlockRegex_None)
  then have "exec_while codeBlockRegex body [] t [] = Returns []" for body :: "rmatch \<Rightarrow> code_block list \<Rightarrow> code_block list outcome"
    by (subst exec_while.simps) simp
  with assms(1) show ?thesis
    by (simp add: extract_code_def extract_code_try_def try_catch_def then_do_def to_string_def)
qed

text \<open>
  C10 on the single line \<^verbatim>\<open>"    x = 1"\<close>, which begins with spaces and has no
  newline after it.
\<close>

theorem extract_code_needs_newline_witness:
  "extract_code (request ''    x = 1'') = Returns (Success (CodePayload [] 0))"
  by (rule extract_code_needs_newline [of _ "''    x = 1''"]) (simp_all add: request_def)

end
